theory Spec2Isabelle
  imports Main "HOL-Library.Multiset"
begin

section \<open>Handler functions, events and continuations (hook.go)\<close>

text \<open>
  A Go \<^verbatim>\<open>error\<close> value is modelled by its message; \<^verbatim>\<open>nil\<close> is \<open>None\<close>.
  A call of a Go function of type \<^verbatim>\<open>func(T) error\<close> either returns an error value
  (possibly nil) or panics; calling a nil function value panics.
\<close>

type_synonym error = string

datatype outcome = Ret "error option" | Panic

text \<open>
  Handler functions are code of the caller. A handler function receives the event and can
  do work on the state it has access to (the fields of the concrete event and the
  variables its closure captured, together the payload \<open>'w\<close>), inspect that state, call
  \<^verbatim>\<open>e.Next()\<close> any number of times and look at what it returned, and finally return an
  error value. The continuation-field of the event is unexported, so a handler reaches it
  through \<^verbatim>\<open>Next\<close> only.
\<close>

datatype 'w func =
    Return "error option"
  | Modify "'w \<Rightarrow> 'w" "'w func"
  | Read "'w \<Rightarrow> 'w func"
  | CallNext "error option \<Rightarrow> 'w func"

text \<open>
  The value of the field \<^verbatim>\<open>next func() error\<close>: nil, or the closure that \<^verbatim>\<open>Trigger\<close>
  creates, which captures the variables \<^verbatim>\<open>old\<close>, \<^verbatim>\<open>handlers\<close> and \<^verbatim>\<open>i\<close>
  (and the event, which is the one it is installed in).
\<close>

datatype 'w closure =
    NilFunc
  | Closure "'w closure" "'w func option list" nat

record 'w Event =
  next_func :: "'w closure"
  payload :: 'w

definition nextFunc :: "'w Event \<Rightarrow> 'w closure" where
  "nextFunc e = next_func e"

definition setNextFunc :: "'w closure \<Rightarrow> 'w Event \<Rightarrow> 'w Event" where
  "setNextFunc f e = e\<lparr>next_func := f\<rparr>"

fun depth :: "'w closure \<Rightarrow> nat" where
  "depth NilFunc = 0"
| "depth (Closure old hs i) = Suc (depth old)"

inductive_set subfunc :: "('w func \<times> 'w func) set" where
  "(p, Modify f p) \<in> subfunc"
| "(k w, Read k) \<in> subfunc"
| "(k r, CallNext k) \<in> subfunc"

text \<open>
  \<open>call_func fn e\<close> runs a handler function on the event, \<open>Next\<close> is \<^verbatim>\<open>Event.Next\<close>,
  and \<open>call_closure\<close> is the body of the closure of \<^verbatim>\<open>Trigger\<close>:
  \<^verbatim>\<open>event.setNextFunc(old); return handlers[i](event)\<close>. A panic unwinds through every
  caller. Indexing \<^verbatim>\<open>handlers[i]\<close> out of range panics, and so does calling a nil
  function value.
\<close>

function call_func :: "'w func \<Rightarrow> 'w Event \<Rightarrow> outcome \<times> 'w Event"
  and Next :: "'w Event \<Rightarrow> outcome \<times> 'w Event"
  and call_closure :: "'w closure \<Rightarrow> 'w Event \<Rightarrow> outcome \<times> 'w Event"
where
  "call_func (Return r) e = (Ret r, e)"
| "call_func (Modify f p) e = call_func p (e\<lparr>payload := f (payload e)\<rparr>)"
| "call_func (Read k) e = call_func (k (payload e)) e"
| "call_func (CallNext k) e =
     (case Next e of
        (Panic, e') \<Rightarrow> (Panic, e')
      | (Ret r, e') \<Rightarrow> call_func (k r) e')"
| "Next e =
     (if next_func e \<noteq> NilFunc then call_closure (next_func e) e else (Ret None, e))"
| "call_closure NilFunc e = (Panic, e)"
| "call_closure (Closure old hs i) e =
     (let e1 = setNextFunc old e in
      if i < length hs then
        (case hs ! i of
           None \<Rightarrow> (Panic, e1)
         | Some fn \<Rightarrow> call_func fn e1)
      else (Panic, e1))"
  by pat_completeness auto

section \<open>Handlers and the hook registry (hook.go)\<close>

text \<open>
  \<^verbatim>\<open>Handler.Func\<close> may be nil. The field \<^verbatim>\<open>Id\<close> is written \<open>Id'\<close>. The mutex of
  \<^verbatim>\<open>Hook\<close> is left out: the model is of one thread. Handlers are passed by pointer in
  Go; the model passes them by value, which is the same as long as the caller does not
  write to a handler's fields after binding it.
\<close>

record 'w Handler =
  Func :: "'w func option"
  Id' :: string
  Priority :: int

record 'w Hook =
  handlers :: "'w Handler list"

subsection \<open>Identifier generation\<close>

text \<open>
  \<^verbatim>\<open>math/rand\<close> belongs to Go's standard library. Its global source is taken as a
  parameter: the sequence of raw outputs and the number of outputs consumed so far.
  \<^verbatim>\<open>Intn(n)\<close> returns a number in \<open>[0, n)\<close>; it is called with \<open>n = 62\<close> only, the
  length of the alphabet.
\<close>

record rand =
  outputs :: "nat \<Rightarrow> nat"
  position :: nat

definition Intn :: "nat \<Rightarrow> rand \<Rightarrow> nat \<times> rand" where
  "Intn n g = (outputs g (position g) mod n, g\<lparr>position := Suc (position g)\<rparr>)"

definition defaultRandomAlphabet :: string where
  "defaultRandomAlphabet = ''ABCDEFGHIJKLMNOPQRSTUVWXYZabcdefghijklmnopqrstuvwxyz0123456789''"

text \<open>The loop over the bytes of \<^verbatim>\<open>b\<close>; the alphabet at every call site is not empty.\<close>

fun pseudorandomStringWithAlphabet :: "nat \<Rightarrow> string \<Rightarrow> rand \<Rightarrow> string \<times> rand" where
  "pseudorandomStringWithAlphabet 0 alphabet g = ([], g)"
| "pseudorandomStringWithAlphabet (Suc n) alphabet g =
     (case Intn (length alphabet) g of
        (k, g1) \<Rightarrow>
          (case pseudorandomStringWithAlphabet n alphabet g1 of
             (s, g2) \<Rightarrow> (alphabet ! k # s, g2)))"

definition pseudorandomString :: "nat \<Rightarrow> rand \<Rightarrow> string \<times> rand" where
  "pseudorandomString n g = pseudorandomStringWithAlphabet n defaultRandomAlphabet g"

definition generateHookId :: "rand \<Rightarrow> string \<times> rand" where
  "generateHookId g = pseudorandomString 20 g"

subsection \<open>Bind\<close>

text \<open>
  The loop at the label \<^verbatim>\<open>DUPLICATE_CHECK\<close>: while some registered handler has the
  candidate id, draw a new candidate and start over. Nothing bounds the number of rounds,
  so the loop is a partial function: \<open>None\<close> stands for a loop that never ends.
\<close>

partial_function (option) DUPLICATE_CHECK ::
    "'w Handler list \<Rightarrow> string \<Rightarrow> rand \<Rightarrow> (string \<times> rand) option" where
  "DUPLICATE_CHECK hs hid g =
     (if list_ex (\<lambda>existing. Id' existing = hid) hs
      then (case generateHookId g of (hid', g') \<Rightarrow> DUPLICATE_CHECK hs hid' g')
      else Some (hid, g))"

text \<open>
  The loop of the else-branch: the first registered handler with the id of the new
  handler is overwritten in its slot, and \<^verbatim>\<open>exists\<close> is set.
\<close>

fun replace_existing :: "'w Handler list \<Rightarrow> 'w Handler \<Rightarrow> 'w Handler list \<times> bool" where
  "replace_existing [] handler = ([], False)"
| "replace_existing (existing # rest) handler =
     (if Id' existing = Id' handler then (handler # rest, True)
      else (case replace_existing rest handler of
              (rest', exists) \<Rightarrow> (existing # rest', exists)))"

text \<open>
  \<^verbatim>\<open>sort.SliceStable\<close> is Go's standard library: a stable sort by the given
  \<^verbatim>\<open>less\<close>, here \<^verbatim>\<open>Priority < Priority\<close>. It is modelled by the stable insertion sort
  of HOL on the key \<open>Priority\<close>. Priorities are compared only, so Go's \<^verbatim>\<open>int\<close> is \<open>int\<close>.
\<close>

definition SliceStable :: "'w Handler list \<Rightarrow> 'w Handler list" where
  "SliceStable hs = sort_key Priority hs"

text \<open>
  Lines 75 to 103 of \<^verbatim>\<open>Bind\<close>, for a handler that is not nil and has a function: the
  id given to the handler, the handler sequence after the insertion or replacement and
  before the sort, and the random source.
\<close>

definition Bind_place ::
    "'w Hook \<Rightarrow> 'w Handler \<Rightarrow> rand \<Rightarrow> (string \<times> 'w Handler list \<times> rand) option" where
  "Bind_place h handler g =
     (if Id' handler = ''''
      then (case generateHookId g of
              (hid, g1) \<Rightarrow>
                (case DUPLICATE_CHECK (handlers h) hid g1 of
                   None \<Rightarrow> None
                 | Some (hid', g2) \<Rightarrow>
                     Some (hid', handlers h @ [handler\<lparr>Id' := hid'\<rparr>], g2)))
      else (case replace_existing (handlers h) handler of
              (hs, exists) \<Rightarrow>
                Some (Id' handler, if \<not> exists then hs @ [handler] else hs, g)))"

text \<open>
  \<^verbatim>\<open>Bind\<close>: the handler pointer may be nil (\<open>None\<close>). The result is the returned id, the
  hook and the random source after the call, or \<open>None\<close> when the call never returns.
  The id that \<^verbatim>\<open>Bind\<close> writes into the caller's handler is the id it returns.
\<close>

definition Bind ::
    "'w Hook \<Rightarrow> 'w Handler option \<Rightarrow> rand \<Rightarrow> (string \<times> 'w Hook \<times> rand) option" where
  "Bind h handler g =
     (case handler of
        None \<Rightarrow> Some ('''', h, g)
      | Some x \<Rightarrow>
          if Func x = None then Some ('''', h, g)
          else (case Bind_place h x g of
                  None \<Rightarrow> None
                | Some (hid, hs, g') \<Rightarrow> Some (hid, h\<lparr>handlers := SliceStable hs\<rparr>, g')))"

definition BindFunc ::
    "'w Hook \<Rightarrow> 'w func option \<Rightarrow> rand \<Rightarrow> (string \<times> 'w Hook \<times> rand) option" where
  "BindFunc h fn g = Bind h (Some \<lparr>Func = fn, Id' = '''', Priority = 0\<rparr>) g"

subsection \<open>Unbind, UnbindAll, Length\<close>

text \<open>
  The inner loop of \<^verbatim>\<open>Unbind\<close> runs \<^verbatim>\<open>i\<close> from the last index down to 0; the second
  argument is \<^verbatim>\<open>i + 1\<close>. The first match from the end is cut out and the loop stops.
\<close>

fun unbind_scan :: "'w Handler list \<Rightarrow> nat \<Rightarrow> string \<Rightarrow> 'w Handler list" where
  "unbind_scan hs 0 hid = hs"
| "unbind_scan hs (Suc i) hid =
     (if Id' (hs ! i) = hid then take i hs @ drop (Suc i) hs
      else unbind_scan hs i hid)"

definition Unbind :: "'w Hook \<Rightarrow> string list \<Rightarrow> 'w Hook" where
  "Unbind h idsToRemove =
     h\<lparr>handlers := fold (\<lambda>hid hs. unbind_scan hs (length hs) hid) idsToRemove (handlers h)\<rparr>"

definition UnbindAll :: "'w Hook \<Rightarrow> 'w Hook" where
  "UnbindAll h = h\<lparr>handlers := []\<rparr>"

definition Length :: "'w Hook \<Rightarrow> int" where
  "Length h = int (length (handlers h))"

subsection \<open>Trigger\<close>

text \<open>
  The loop that builds the chain runs \<^verbatim>\<open>i\<close> from the last index down to 0; the second
  argument is \<^verbatim>\<open>i + 1\<close>.
\<close>

fun build_chain :: "'w func option list \<Rightarrow> nat \<Rightarrow> 'w Event \<Rightarrow> 'w Event" where
  "build_chain hs 0 event = event"
| "build_chain hs (Suc i) event =
     build_chain hs i (setNextFunc (Closure (nextFunc event) hs i) event)"

text \<open>
  \<^verbatim>\<open>Trigger\<close> returns the outcome of the chain, the hook after the call and the event
  after the call.
\<close>

definition Trigger ::
    "'w Hook \<Rightarrow> 'w Event \<Rightarrow> 'w func option list \<Rightarrow> outcome \<times> 'w Hook \<times> 'w Event" where
  "Trigger h event oneOffHandlerFuncs =
     (let hs = map Func (handlers h) @ oneOffHandlerFuncs;
          event1 = setNextFunc NilFunc event;
          event2 = build_chain hs (length hs) event1
      in case Next event2 of (r, event3) \<Rightarrow> (r, h, event3))"

text \<open>
  The chain that \<^verbatim>\<open>Trigger\<close> is meant to install, written down from its description:
  the continuation for the indices \<open>is\<close>, in front of the continuation \<open>rest\<close>. The
  continuation for index \<open>i\<close> holds the continuation for what comes after \<open>i\<close>.
\<close>

fun chain :: "'w func option list \<Rightarrow> nat list \<Rightarrow> 'w closure \<Rightarrow> 'w closure" where
  "chain hs [] rest = rest"
| "chain hs (i # is) rest = Closure (chain hs is rest) hs i"

text \<open>
  The hooks that a program can hold: the zero value \<^verbatim>\<open>Hook{}\<close> and what the methods make
  of it.
\<close>

inductive reachable :: "'w Hook \<Rightarrow> bool" where
  zero: "reachable \<lparr>handlers = []\<rparr>"
| bind: "reachable h \<Longrightarrow> Bind h handler g = Some (hid, h', g') \<Longrightarrow> reachable h'"
| unbind: "reachable h \<Longrightarrow> reachable (Unbind h idsToRemove)"
| unbind_all: "reachable h \<Longrightarrow> reachable (UnbindAll h)"
| trigger: "reachable h \<Longrightarrow> Trigger h event fs = (r, h', event') \<Longrightarrow> reachable h'"

text \<open>
  The candidate ids that successive calls of \<^verbatim>\<open>generateHookId\<close> return, from a given state
  of the random source.
\<close>

fun candidate :: "rand \<Rightarrow> nat \<Rightarrow> string" where
  "candidate g 0 = fst (generateHookId g)"
| "candidate g (Suc n) = candidate (snd (generateHookId g)) n"

text \<open>What holds of the handler sequence of every hook a program can hold.\<close>

definition well_formed :: "'w Handler list \<Rightarrow> bool" where
  "well_formed hs \<longleftrightarrow> sorted (map Priority hs) \<and> distinct (map Id' hs) \<and> '''' \<notin> Id' ` set hs
      \<and> (\<forall>x\<in>set hs. Func x \<noteq> None)"

subsection \<open>Handler functions of callers\<close>

text \<open>
  \<^verbatim>\<open>func(e) error { before(); err := e.Next(); after(err); return err }\<close>
\<close>

definition passes :: "('w \<Rightarrow> 'w) \<Rightarrow> (error option \<Rightarrow> 'w \<Rightarrow> 'w) \<Rightarrow> 'w func" where
  "passes before after = Modify before (CallNext (\<lambda>err. Modify (after err) (Return err)))"

text \<open>
  \<^verbatim>\<open>func(e) error { log = append(log, name); return e.Next() }\<close>, the payload being
  the shared log.
\<close>

definition logs :: "string \<Rightarrow> string list func" where
  "logs name = passes (\<lambda>log. log @ [name]) (\<lambda>err log. log)"

text \<open>
  \<^verbatim>\<open>func(e) error { work(); return r }\<close>: a handler function that does not call
  \<^verbatim>\<open>e.Next()\<close>.
\<close>

definition stops :: "('w \<Rightarrow> 'w) \<Rightarrow> error option \<Rightarrow> 'w func" where
  "stops work r = Modify work (Return r)"


section \<open>Transports (the SMTP client and sendmail.go)\<close>

text \<open>
  \<^verbatim>\<open>SendEvent\<close> embeds \<^verbatim>\<open>Event\<close> and adds the field \<^verbatim>\<open>Message\<close>. The payload of a send
  event is that field and the state \<open>'x\<close> that the delivery and the handlers act on (the
  network, the sendmail process, the variables the handlers captured). The message type
  \<open>'m\<close> is the type of \<^verbatim>\<open>*Message\<close>.
\<close>

record ('m, 'x) SendEvent =
  Message :: 'm
  world :: 'x

text \<open>
  The unexported method \<^verbatim>\<open>send\<close> of either transport talks to an SMTP server or runs the
  sendmail binary. It is a parameter of the model: a function from the message and the
  outside state to the returned error and the state after.
\<close>

type_synonym ('m, 'x) send = "'m \<Rightarrow> 'x \<Rightarrow> error option \<times> 'x"

text \<open>
  \<^verbatim>\<open>func(e *SendEvent) error { return c.send(e.Message) }\<close>
\<close>

definition send_func :: "('m, 'x) send \<Rightarrow> ('m, 'x) SendEvent func" where
  "send_func send =
     Read (\<lambda>w. case send (Message w) (world w) of
                 (err, x') \<Rightarrow> Modify (\<lambda>w'. w'\<lparr>world := x'\<rparr>) (Return err))"

record ('m, 'x) SMTPClient =
  onSend :: "('m, 'x) SendEvent Hook option"
  TLS :: bool
  Port :: int
  Host :: string
  Username :: string
  Password :: string
  AuthMethod :: string
  LocalName :: string

record ('m, 'x) Sendmail =
  onSend :: "('m, 'x) SendEvent Hook option"

text \<open>
  \<^verbatim>\<open>Send\<close> of \<^verbatim>\<open>SMTPClient\<close> and of \<^verbatim>\<open>Sendmail\<close>. The event is made inside the call
  and is gone after it; the result is the outcome and the outside state after the call.
  Without a hook, \<^verbatim>\<open>send\<close> is called directly.
\<close>

definition SMTPClient_Send ::
    "(('m, 'x) SMTPClient \<Rightarrow> ('m, 'x) send) \<Rightarrow> ('m, 'x) SMTPClient \<Rightarrow> 'm \<Rightarrow> 'x
       \<Rightarrow> outcome \<times> 'x" where
  "SMTPClient_Send send c m x =
     (case SMTPClient.onSend c of
        Some hook \<Rightarrow>
          (case Trigger hook \<lparr>next_func = NilFunc, payload = \<lparr>Message = m, world = x\<rparr>\<rparr>
                  [Some (send_func (send c))] of
             (r, hook', event) \<Rightarrow> (r, world (payload event)))
      | None \<Rightarrow> (case send c m x of (err, x') \<Rightarrow> (Ret err, x')))"

definition Sendmail_Send ::
    "(('m, 'x) Sendmail \<Rightarrow> ('m, 'x) send) \<Rightarrow> ('m, 'x) Sendmail \<Rightarrow> 'm \<Rightarrow> 'x
       \<Rightarrow> outcome \<times> 'x" where
  "Sendmail_Send send c m x =
     (case Sendmail.onSend c of
        Some hook \<Rightarrow>
          (case Trigger hook \<lparr>next_func = NilFunc, payload = \<lparr>Message = m, world = x\<rparr>\<rparr>
                  [Some (send_func (send c))] of
             (r, hook', event) \<Rightarrow> (r, world (payload event)))
      | None \<Rightarrow> (case send c m x of (err, x') \<Rightarrow> (Ret err, x')))"

section \<open>Concrete inputs\<close>

definition exA :: "string list Handler" where
  "exA = \<lparr>Func = Some (logs ''A''), Id' = ''a'', Priority = 0\<rparr>"

text \<open>A random source whose raw outputs are 0, 1, 2, ...\<close>

definition ex_rand :: rand where
  "ex_rand = \<lparr>outputs = (\<lambda>n. n), position = 0\<rparr>"

text \<open>
  Three handlers whose functions append their name to a shared log and continue, and the
  hooks that binding them one after the other to the zero hook gives.
\<close>

definition exH1 :: "string list Handler" where
  "exH1 = \<lparr>Func = Some (logs ''H1''), Id' = ''H1'', Priority = 0\<rparr>"

definition exH2 :: "string list Handler" where
  "exH2 = \<lparr>Func = Some (logs ''H2''), Id' = ''H2'', Priority = - 5\<rparr>"

definition exH3 :: "string list Handler" where
  "exH3 = \<lparr>Func = Some (logs ''H3''), Id' = ''H3'', Priority = 0\<rparr>"

definition ex_hook0 :: "string list Hook" where
  "ex_hook0 = \<lparr>handlers = []\<rparr>"

definition ex_hook1 :: "string list Hook" where
  "ex_hook1 = \<lparr>handlers = [exH1]\<rparr>"

definition ex_hook2 :: "string list Hook" where
  "ex_hook2 = \<lparr>handlers = [exH2, exH1]\<rparr>"

definition ex_hook3 :: "string list Hook" where
  "ex_hook3 = \<lparr>handlers = [exH2, exH1, exH3]\<rparr>"

text \<open>A handler without an id, and a handler without a function.\<close>

definition exN :: "string list Handler" where
  "exN = \<lparr>Func = Some (logs ''N''), Id' = '''', Priority = 0\<rparr>"

definition exNoFunc :: "string list Handler" where
  "exNoFunc = \<lparr>Func = None, Id' = ''H1'', Priority = 7\<rparr>"

text \<open>
  A random source that repeats its first twenty outputs once, so that the second id it
  yields is the first one again, and the hooks that binding \<open>exN\<close> twice with it gives.
\<close>

definition ex_rand2 :: rand where
  "ex_rand2 = \<lparr>outputs = (\<lambda>n. if n < 40 then n mod 20 else n), position = 0\<rparr>"

definition ex_auto1 :: "string list Hook" where
  "ex_auto1 = \<lparr>handlers = [exN\<lparr>Id' := ''ABCDEFGHIJKLMNOPQRST''\<rparr>]\<rparr>"

definition ex_auto2 :: "string list Hook" where
  "ex_auto2 = \<lparr>handlers = [exN\<lparr>Id' := ''ABCDEFGHIJKLMNOPQRST''\<rparr>,
                            exN\<lparr>Id' := ''opqrstuvwxyz01234567''\<rparr>]\<rparr>"

text \<open>An event with an empty log, and the three handlers above without ids.\<close>

definition ex_event :: "string list Event" where
  "ex_event = \<lparr>next_func = NilFunc, payload = []\<rparr>"

definition ex_ids1 :: "string list Hook" where
  "ex_ids1 = \<lparr>handlers = [exH1\<lparr>Id' := ''ABCDEFGHIJKLMNOPQRST''\<rparr>]\<rparr>"

definition ex_ids2 :: "string list Hook" where
  "ex_ids2 = \<lparr>handlers = [exH2\<lparr>Id' := ''UVWXYZabcdefghijklmn''\<rparr>,
                           exH1\<lparr>Id' := ''ABCDEFGHIJKLMNOPQRST''\<rparr>]\<rparr>"

definition ex_ids3 :: "string list Hook" where
  "ex_ids3 = \<lparr>handlers = [exH2\<lparr>Id' := ''UVWXYZabcdefghijklmn''\<rparr>,
                           exH1\<lparr>Id' := ''ABCDEFGHIJKLMNOPQRST''\<rparr>,
                           exH3\<lparr>Id' := ''opqrstuvwxyz01234567''\<rparr>]\<rparr>"






definition ex_hookA :: "string list Hook" where
  "ex_hookA = \<lparr>handlers = [exA]\<rparr>"

text \<open>
  What \<open>logs name\<close> does before and after it continues, as a pair.
\<close>

definition logging :: "string \<Rightarrow> (string list \<Rightarrow> string list) \<times> (error option \<Rightarrow> string list \<Rightarrow> string list)" where
  "logging name = (\<lambda>log. log @ [name], \<lambda>err log. log)"

text \<open>
  Two one-off functions of a first call (the first stops the chain with an error, so
  the second never runs), the event that this call leaves behind, and a delivery that
  records the message in the outside state and fails for the message \<open>''bad''\<close>.
\<close>

definition ex_first :: "string list func option list" where
  "ex_first = [Some (stops (\<lambda>log. log @ [''X1'']) (Some ''fail'')), Some (logs ''X2'')]"

definition ex_stale :: "string list Event" where
  "ex_stale = \<lparr>next_func = Closure NilFunc (Some (logs ''A'') # ex_first) 2,
               payload = [''A'', ''X1'']\<rparr>"

definition ex_send :: "'c \<Rightarrow> (string, string list) send" where
  "ex_send c m x = (if m = ''bad'' then Some ''rejected'' else None, x @ [''sent '' @ m])"

definition ex_mark :: "string \<Rightarrow> ((string, string list) SendEvent \<Rightarrow> (string, string list) SendEvent)
    \<times> (error option \<Rightarrow> (string, string list) SendEvent \<Rightarrow> (string, string list) SendEvent)" where
  "ex_mark name =
     (\<lambda>w. w\<lparr>world := world w @ [name]\<rparr>,
      \<lambda>err w. w\<lparr>world := world w @ [name @ (case err of None \<Rightarrow> '' ok'' | Some msg \<Rightarrow> '' failed'')]\<rparr>)"

definition ex_send_hook :: "(string, string list) SendEvent Hook" where
  "ex_send_hook =
     \<lparr>handlers = [\<lparr>Func = Some (passes (fst (ex_mark ''h'')) (snd (ex_mark ''h''))),
                    Id' = ''h'', Priority = 0\<rparr>]\<rparr>"

definition ex_smtp :: "(string, string list) SMTPClient" where
  "ex_smtp = \<lparr>SMTPClient.onSend = Some ex_send_hook, TLS = True, Port = 587, Host = ''smtp.example.com'',
              Username = '''', Password = '''', AuthMethod = '''', LocalName = ''''\<rparr>"

definition ex_sendmail :: "(string, string list) Sendmail" where
  "ex_sendmail = \<lparr>Sendmail.onSend = Some ex_send_hook\<rparr>"

text \<open>
  The hook that binding \<open>H2\<close> again, now with priority 0, to the hook of \<open>H1\<close>, \<open>H2\<close>
  and \<open>H3\<close> gives: the three handlers have priority 0, and \<open>H2\<close> is in front.
\<close>

definition ex_rebound :: "string list Hook" where
  "ex_rebound = \<lparr>handlers = [exH2\<lparr>Priority := 0\<rparr>, exH1, exH3]\<rparr>"








section \<open>Termination of the chain\<close>

text \<open>
  Every call of a continuation replaces the installed continuation by the one it
  captured, which is shorter, and nothing else writes the field while a chain runs. So
  the length of the installed chain never grows, which bounds the nesting of calls.
\<close>

lemma wf_subfunc: "wf subfunc"
proof (rule wfUNIVI)
  fix P :: "'w func \<Rightarrow> bool" and x
  assume step: "\<forall>x. (\<forall>y. (y, x) \<in> subfunc \<longrightarrow> P y) \<longrightarrow> P x"
  show "P x"
  proof (induction x)
    case (Return r)
    show ?case by (rule step[rule_format]) (auto elim: subfunc.cases)
  next
    case (Modify f p)
    show ?case by (rule step[rule_format]) (auto elim: subfunc.cases intro: Modify)
  next
    case (Read k)
    show ?case by (rule step[rule_format]) (auto elim: subfunc.cases intro: Read)
  next
    case (CallNext k)
    show ?case by (rule step[rule_format]) (auto elim: subfunc.cases intro: CallNext)
  qed
qed

lemma depth_dom:
  "call_func_Next_call_closure_dom (Inl (p, e)) \<Longrightarrow>
     depth (next_func (snd (call_func p e))) \<le> depth (next_func e)"
  "call_func_Next_call_closure_dom (Inr (Inl e)) \<Longrightarrow>
     depth (next_func (snd (Next e))) \<le> depth (next_func e)"
  "call_func_Next_call_closure_dom (Inr (Inr (c, e))) \<Longrightarrow>
     c \<noteq> NilFunc \<longrightarrow> depth (next_func (snd (call_closure c e))) < depth c"
proof (induction rule: call_func_Next_call_closure.pinduct)
  case (1 r e)
  then show ?case by (simp add: call_func.psimps)
next
  case (2 f p e)
  then show ?case by (simp add: call_func.psimps)
next
  case (3 k e)
  then show ?case by (simp add: call_func.psimps)
next
  case (4 k e)
  show ?case
  proof (cases "Next e")
    case (Pair x y)
    show ?thesis
    proof (cases x)
      case (Ret r)
      with Pair 4 have "depth (next_func (snd (call_func (k r) y))) \<le> depth (next_func y)"
        by simp
      moreover from 4(2) Pair have "depth (next_func y) \<le> depth (next_func e)" by simp
      ultimately show ?thesis using 4(1) Pair Ret by (simp add: call_func.psimps)
    next
      case Panic
      with 4 Pair show ?thesis by (simp add: call_func.psimps)
    qed
  qed
next
  case (5 e)
  then show ?case by (auto simp add: Next.psimps dest: less_imp_le)
next
  case (6 e)
  then show ?case by simp
next
  case (7 old hs i e)
  then show ?case
    by (auto simp add: call_closure.psimps setNextFunc_def Let_def split: option.splits
             intro: le_imp_less_Suc)
qed

termination call_func
proof (relation "inv_image (less_than <*lex*> less_than <*lex*> subfunc)
    (\<lambda>x. case x of
        Inl (p, e) \<Rightarrow> (depth (next_func e), 2::nat, p)
      | Inr (Inl e) \<Rightarrow> (depth (next_func e), 1, Return None)
      | Inr (Inr (c, e)) \<Rightarrow> (depth c, 0, Return None))", goal_cases)
  case 1
  show ?case by (intro wf_inv_image wf_lex_prod wf_less_than wf_subfunc)
next
  case (2 f p e)
  show ?case by (simp add: subfunc.intros)
next
  case (3 k e)
  show ?case by (simp add: subfunc.intros)
next
  case (4 k e)
  show ?case by simp
next
  case (5 k e x y r)
  from 5(1)[symmetric] depth_dom(2)[OF 5(3)]
  have "depth (next_func y) \<le> depth (next_func e)" by simp
  then show ?case by (auto simp add: subfunc.intros)
next
  case (6 e)
  show ?case by simp
next
  case (7 old hs i e x fn)
  then show ?case by (simp add: setNextFunc_def)
qed

section \<open>Lemmas: the chain\<close>

declare Next.simps [simp del]

lemma Next_NilFunc: "next_func e = NilFunc \<Longrightarrow> Next e = (Ret None, e)"
  by (simp add: Next.simps)

lemma Next_Closure:
  "next_func e = Closure old hs i \<Longrightarrow> i < length hs \<Longrightarrow> hs ! i = Some fn \<Longrightarrow>
     Next e = call_func fn (e\<lparr>next_func := old\<rparr>)"
  by (simp add: Next.simps setNextFunc_def)

lemma chain_append: "chain hs (is @ js) rest = chain hs is (chain hs js rest)"
  by (induction "is") simp_all

lemma build_chain_eq:
  "build_chain hs n e = e\<lparr>next_func := chain hs [0..<n] (next_func e)\<rparr>"
proof (induction n arbitrary: e)
  case 0
  show ?case by simp
next
  case (Suc n)
  show ?case by (simp add: Suc.IH setNextFunc_def nextFunc_def chain_append)
qed

lemma Trigger_chain:
  "Trigger h e fs =
     (case Next (e\<lparr>next_func := chain (map Func (handlers h) @ fs)
                      [0..<length (handlers h) + length fs] NilFunc\<rparr>) of
        (r, e') \<Rightarrow> (r, h, e'))"
  by (simp add: Trigger_def Let_def build_chain_eq setNextFunc_def)

lemma case_outcome_id:
  "(case x of (Panic, e') \<Rightarrow> (Panic, e') | (Ret r, e') \<Rightarrow> (Ret r, e')) = x"
  by (simp split: prod.splits outcome.splits)

lemma Next_passes:
  assumes "i < length hs" and "hs ! i = Some (passes A B)"
  shows "Next (e\<lparr>next_func := Closure c hs i\<rparr>) =
     (case Next (e\<lparr>next_func := c, payload := A (payload e)\<rparr>) of
        (Panic, e') \<Rightarrow> (Panic, e')
      | (Ret r, e') \<Rightarrow> (Ret r, e'\<lparr>payload := B r (payload e')\<rparr>))"
  using assms
  by (simp add: Next_Closure[where old=c and hs=hs and i=i] passes_def
           split: prod.splits outcome.splits)

lemma Next_passes_chain:
  assumes "\<forall>i\<in>set is. i < length hs \<and> hs ! i = Some (passes (A i) (B i))"
  shows "Next (e\<lparr>next_func := chain hs is c\<rparr>) =
     (case Next (e\<lparr>next_func := c, payload := fold A is (payload e)\<rparr>) of
        (Panic, e') \<Rightarrow> (Panic, e')
      | (Ret r, e') \<Rightarrow> (Ret r, e'\<lparr>payload := foldr (\<lambda>i. B i r) is (payload e')\<rparr>))"
  using assms
proof (induction "is" arbitrary: e)
  case Nil
  show ?case by (simp split: prod.splits outcome.splits)
next
  case (Cons i "is")
  have 1: "i < length hs" "hs ! i = Some (passes (A i) (B i))" using Cons.prems by auto
  have 2: "\<forall>i\<in>set is. i < length hs \<and> hs ! i = Some (passes (A i) (B i))"
    using Cons.prems by auto
  let ?e1 = "e\<lparr>payload := A i (payload e)\<rparr>"
  have 3: "e\<lparr>next_func := chain hs is c, payload := A i (payload e)\<rparr> =
           ?e1\<lparr>next_func := chain hs is c\<rparr>" by simp
  have 4: "e\<lparr>next_func := c, payload := fold A (i # is) (payload e)\<rparr> =
           ?e1\<lparr>next_func := c, payload := fold A is (payload ?e1)\<rparr>" by simp
  show ?case
    unfolding chain.simps Next_passes[OF 1] 3 4 Cons.IH[OF 2, of ?e1]
    by (simp split: prod.splits outcome.splits)
qed

lemma map_nth_shift: "map (\<lambda>i. ps ! (i - k)) [k..<k + length ps] = ps"
  by (rule nth_equalityI) simp_all

lemma fold_nth_shift: "fold (\<lambda>i. f (ps ! (i - k))) [k..<k + length ps] w = fold f ps w"
proof -
  have "fold (\<lambda>i. f (ps ! (i - k))) [k..<k + length ps] w =
        fold f (map (\<lambda>i. ps ! (i - k)) [k..<k + length ps]) w"
    by (simp add: fold_map comp_def)
  then show ?thesis by (simp add: map_nth_shift)
qed

lemma foldr_nth_shift: "foldr (\<lambda>i. f (ps ! (i - k))) [k..<k + length ps] w = foldr f ps w"
proof -
  have "foldr (\<lambda>i. f (ps ! (i - k))) [k..<k + length ps] w =
        foldr f (map (\<lambda>i. ps ! (i - k)) [k..<k + length ps]) w"
    by (simp add: foldr_map comp_def)
  then show ?thesis by (simp add: map_nth_shift)
qed

text \<open>
  A segment of handler functions of the form \<open>passes before after\<close>, at the indices from
  \<open>length pre\<close> on: all the \<open>before\<close> run in order, then what follows the segment runs,
  then all the \<open>after\<close> run in reverse order, and the outcome is passed through.
\<close>

lemma Next_passes_segment:
  fixes ps :: "(('w \<Rightarrow> 'w) \<times> (error option \<Rightarrow> 'w \<Rightarrow> 'w)) list"
  assumes "hs = pre @ map (\<lambda>p. Some (passes (fst p) (snd p))) ps @ post"
  shows "Next (e\<lparr>next_func := chain hs [length pre..<length pre + length ps] c\<rparr>) =
     (case Next (e\<lparr>next_func := c, payload := fold fst ps (payload e)\<rparr>) of
        (Panic, e') \<Rightarrow> (Panic, e')
      | (Ret r, e') \<Rightarrow> (Ret r, e'\<lparr>payload := foldr (\<lambda>p. snd p r) ps (payload e')\<rparr>))"
proof -
  let ?k = "length pre"
  let ?A = "\<lambda>i. fst (ps ! (i - ?k))" and ?B = "\<lambda>i. snd (ps ! (i - ?k))"
  have "\<forall>i\<in>set [?k..<?k + length ps]. i < length hs \<and> hs ! i = Some (passes (?A i) (?B i))"
    by (auto simp add: assms nth_append)
  from Next_passes_chain[OF this, where e=e and c=c]
  show ?thesis
    by (simp add: fold_nth_shift[of fst] foldr_nth_shift[of "\<lambda>p. snd p r" for r]
          split: prod.splits outcome.splits)
qed

lemma Next_stops:
  assumes "i < length hs" and "hs ! i = Some (stops work r)"
  shows "Next (e\<lparr>next_func := Closure c hs i\<rparr>) =
           (Ret r, e\<lparr>next_func := c, payload := work (payload e)\<rparr>)"
  using assms by (simp add: Next_Closure[where old=c and hs=hs and i=i] stops_def)


lemma Next_send_func:
  assumes "i < length hs" and "hs ! i = Some (send_func send)"
  shows "Next (e\<lparr>next_func := Closure c hs i\<rparr>) =
     (case send (Message (payload e)) (world (payload e)) of
        (err, x') \<Rightarrow> (Ret err, e\<lparr>next_func := c, payload := (payload e)\<lparr>world := x'\<rparr>\<rparr>))"
  using assms
  by (simp add: Next_Closure[where old=c and hs=hs and i=i] send_func_def
           split: prod.splits)

lemma chain_at:
  assumes "hs = pre @ x # post"
  shows "chain hs [length pre..<length hs] c =
           Closure (chain hs [Suc (length pre)..<length hs] c) hs (length pre)"
proof -
  have "length pre < length hs" by (simp add: assms)
  then have "[length pre..<length hs] = length pre # [Suc (length pre)..<length hs]"
    by (rule upt_conv_Cons)
  then show ?thesis by simp
qed

lemma chain_segment:
  assumes "hs = pre @ mid @ post"
  shows "chain hs [length pre..<length hs] c =
           chain hs [length pre..<length pre + length mid]
             (chain hs [length pre + length mid..<length hs] c)"
proof -
  have "[length pre..<length hs] =
        [length pre..<length pre + length mid] @ [length pre + length mid..<length hs]"
    using upt_add_eq_append[of "length pre" "length pre + length mid" "length post"]
    by (simp add: assms add.assoc)
  then show ?thesis by (simp add: chain_append)
qed

lemma upd_swap:
  "e\<lparr>next_func := n, payload := w\<rparr> = e\<lparr>payload := w\<rparr>\<lparr>next_func := n\<rparr>"
  by simp

lemma Next_stops_upd:
  assumes "i < length hs" and "hs ! i = Some (stops work r)"
  shows "Next (e\<lparr>next_func := Closure c hs i, payload := w\<rparr>) =
           (Ret r, e\<lparr>next_func := c, payload := work w\<rparr>)"
  using Next_stops[OF assms, where e="e\<lparr>payload := w\<rparr>" and c=c]
  by (simp add: upd_swap)


lemma Next_send_func_upd:
  assumes "i < length hs" and "hs ! i = Some (send_func send)"
  shows "Next (e\<lparr>next_func := Closure c hs i, payload := w\<rparr>) =
     (case send (Message w) (world w) of
        (err, x') \<Rightarrow> (Ret err, e\<lparr>next_func := c, payload := w\<lparr>world := x'\<rparr>\<rparr>))"
  using Next_send_func[OF assms, where e="e\<lparr>payload := w\<rparr>" and c=c]
  by (simp add: upd_swap)


lemma Trigger_passes_prefix:
  fixes ps :: "(('w \<Rightarrow> 'w) \<times> (error option \<Rightarrow> 'w \<Rightarrow> 'w)) list"
  assumes "hs = map Func (handlers h) @ fs"
    and "hs = map (\<lambda>p. Some (passes (fst p) (snd p))) ps @ rest"
  shows "Trigger h e fs =
     (case Next (e\<lparr>next_func := chain hs [length ps..<length hs] NilFunc,
                    payload := fold fst ps (payload e)\<rparr>) of
        (Panic, e') \<Rightarrow> (Panic, h, e')
      | (Ret r, e') \<Rightarrow> (Ret r, h, e'\<lparr>payload := foldr (\<lambda>p. snd p r) ps (payload e')\<rparr>))"
proof -
  let ?P = "\<lambda>p :: ('w \<Rightarrow> 'w) \<times> (error option \<Rightarrow> 'w \<Rightarrow> 'w). Some (passes (fst p) (snd p))"
  have len: "length (handlers h) + length fs = length hs" by (simp add: assms(1))
  have 1: "hs = [] @ map ?P ps @ rest" by (simp add: assms(2))
  have "chain hs [0..<length hs] NilFunc =
          chain hs [0..<0 + length (map ?P ps)] (chain hs [0 + length (map ?P ps)..<length hs] NilFunc)"
    using chain_segment[OF 1, of NilFunc] by simp
  then have 2: "chain hs [0..<length hs] NilFunc =
          chain hs [length ([] :: 'w func option list)..<length ([] :: 'w func option list) + length ps]
             (chain hs [length ps..<length hs] NilFunc)"
    by simp
  show ?thesis
    unfolding Trigger_chain len assms(1)[symmetric] 2 Next_passes_segment[OF 1]
    by (simp split: prod.splits outcome.splits)
qed

lemma Trigger_all_pass:
  fixes ps :: "(('w \<Rightarrow> 'w) \<times> (error option \<Rightarrow> 'w \<Rightarrow> 'w)) list"
  assumes "map Func (handlers h) @ fs = map (\<lambda>p. Some (passes (fst p) (snd p))) ps"
  shows "Trigger h e fs =
     (Ret None, h, e\<lparr>next_func := NilFunc,
                      payload := foldr (\<lambda>p. snd p None) ps (fold fst ps (payload e))\<rparr>)"
proof -
  let ?hs = "map Func (handlers h) @ fs"
  have 1: "?hs = map (\<lambda>p. Some (passes (fst p) (snd p))) ps @ []" using assms by simp
  have 2: "length ?hs = length ps" unfolding assms by simp
  show ?thesis
    unfolding Trigger_passes_prefix[OF refl 1] 2
    by (simp add: Next_NilFunc)
qed

lemma Trigger_pass_then_stop:
  fixes ps :: "(('w \<Rightarrow> 'w) \<times> (error option \<Rightarrow> 'w \<Rightarrow> 'w)) list"
  assumes "hs = map Func (handlers h) @ fs"
    and "hs = map (\<lambda>p. Some (passes (fst p) (snd p))) ps @ Some (stops work r) # post"
  shows "Trigger h e fs =
     (Ret r, h, e\<lparr>next_func := chain hs [Suc (length ps)..<length hs] NilFunc,
                   payload := foldr (\<lambda>p. snd p r) ps (work (fold fst ps (payload e)))\<rparr>)"
proof -
  let ?pre = "map (\<lambda>p :: ('w \<Rightarrow> 'w) \<times> (error option \<Rightarrow> 'w \<Rightarrow> 'w). Some (passes (fst p) (snd p))) ps"
  have 1: "hs = ?pre @ Some (stops work r) # post" by (rule assms(2))
  have i: "length ps < length hs" "hs ! length ps = Some (stops work r)"
    by (simp_all add: assms(2) nth_append)
  have 2: "chain hs [length ps..<length hs] NilFunc =
           Closure (chain hs [Suc (length ps)..<length hs] NilFunc) hs (length ps)"
    using chain_at[OF 1, of NilFunc] by simp
  show ?thesis
    unfolding Trigger_passes_prefix[OF assms] 2
    by (simp add: Next_stops_upd[OF i])
qed

lemma fold_logs:
  "fold fst (map (\<lambda>x. (\<lambda>log. log @ [nm x], B x)) xs) w = w @ map nm xs"
  by (induction xs arbitrary: w) simp_all

lemma foldr_keeps:
  "foldr (\<lambda>p. snd p r) (map (\<lambda>x. (A x, \<lambda>err log. log)) xs) w = w"
  by (induction xs) simp_all

lemma Trigger_logs:
  assumes "\<forall>x\<in>set (handlers h). Func x = Some (logs (nm x))"
  shows "Trigger h e [] =
           (Ret None, h, \<lparr>next_func = NilFunc, payload = payload e @ map nm (handlers h)\<rparr>)"
proof -
  let ?ps = "map (\<lambda>x. (\<lambda>log. log @ [nm x], \<lambda>(err :: error option) (log :: string list). log))
               (handlers h)"
  have "map Func (handlers h) @ [] = map (\<lambda>p. Some (passes (fst p) (snd p))) ?ps"
    using assms by (simp add: logs_def)
  from Trigger_all_pass[OF this, of e] show ?thesis
    by (simp add: fold_logs foldr_keeps)
qed


lemma Trigger_pass_then_send:
  fixes ps :: "((('m, 'x) SendEvent \<Rightarrow> ('m, 'x) SendEvent)
                \<times> (error option \<Rightarrow> ('m, 'x) SendEvent \<Rightarrow> ('m, 'x) SendEvent)) list"
  assumes "map Func (handlers h) = map (\<lambda>p. Some (passes (fst p) (snd p))) ps"
    and "send (Message (fold fst ps (payload e))) (world (fold fst ps (payload e))) = (err, x')"
  shows "Trigger h e [Some (send_func send)] =
     (Ret err, h,
      e\<lparr>next_func := NilFunc,
        payload := foldr (\<lambda>p. snd p err) ps ((fold fst ps (payload e))\<lparr>world := x'\<rparr>)\<rparr>)"
proof -
  let ?pre = "map (\<lambda>p :: (('m, 'x) SendEvent \<Rightarrow> ('m, 'x) SendEvent)
                \<times> (error option \<Rightarrow> ('m, 'x) SendEvent \<Rightarrow> ('m, 'x) SendEvent).
                  Some (passes (fst p) (snd p))) ps"
  define hs where "hs = map Func (handlers h) @ [Some (send_func send)]"
  have 1: "hs = ?pre @ Some (send_func send) # []" by (simp add: hs_def assms(1))
  have 3: "hs = ?pre @ [Some (send_func send)]" by (simp add: hs_def assms(1))
  have l: "length hs = Suc (length ps)" by (simp add: 3)
  have i: "length ps < length hs" "hs ! length ps = Some (send_func send)"
    using nth_append_length[of ?pre "Some (send_func send)" "[]"]
    by (simp_all add: 3)
  have 2: "chain hs [length ps..<length hs] NilFunc = Closure NilFunc hs (length ps)"
    using chain_at[OF 1, of NilFunc] by (simp add: l)
  show ?thesis
    unfolding Trigger_passes_prefix[OF hs_def 3] 2 Next_send_func_upd[OF i]
    by (simp add: assms(2))
qed

section \<open>Lemmas: the registry\<close>

subsection \<open>The sort\<close>

lemma sorted_SliceStable: "sorted (map Priority (SliceStable hs))"
  by (simp add: SliceStable_def)

lemma mset_SliceStable: "mset (SliceStable hs) = mset hs"
  by (simp add: SliceStable_def)

lemma set_SliceStable: "set (SliceStable hs) = set hs"
  by (simp add: SliceStable_def)

lemma length_SliceStable: "length (SliceStable hs) = length hs"
  by (simp add: SliceStable_def)

lemma stable_SliceStable:
  "filter (\<lambda>y. Priority y = k) (SliceStable hs) = filter (\<lambda>y. Priority y = k) hs"
  by (simp add: SliceStable_def sort_key_stable)

lemma SliceStable_sorted: "sorted (map Priority hs) \<Longrightarrow> SliceStable hs = hs"
  by (simp add: SliceStable_def sort_key_id_if_sorted)

lemma distinct_ids_SliceStable:
  "distinct (map Id' (SliceStable hs)) = distinct (map Id' hs)"
proof -
  have "mset (map Id' (SliceStable hs)) = mset (map Id' hs)"
    by (simp add: mset_SliceStable)
  then show ?thesis by (rule mset_eq_imp_distinct_iff)
qed

subsection \<open>Placement of a new handler\<close>

lemma SliceStable_snoc:
  assumes "sorted (map Priority hs)"
  shows "SliceStable (hs @ [x]) =
           filter (\<lambda>y. Priority y \<le> Priority x) hs @ [x] @ filter (\<lambda>y. Priority x < Priority y) hs"
  unfolding SliceStable_def
proof (rule properties_for_sort_key)
  let ?ys = "filter (\<lambda>y. Priority y \<le> Priority x) hs @ [x] @ filter (\<lambda>y. Priority x < Priority y) hs"
  have "mset hs = filter_mset (\<lambda>y. Priority y \<le> Priority x) (mset hs)
                   + filter_mset (\<lambda>y. Priority x < Priority y) (mset hs)"
    using multiset_partition[of "mset hs" "\<lambda>y. Priority y \<le> Priority x"] by (simp add: not_le)
  then show "mset ?ys = mset (hs @ [x])" by simp
  show "sorted (map Priority ?ys)"
    using assms by (auto simp add: sorted_append sorted_map sorted_wrt_filter intro: less_imp_le)
  fix k assume "k \<in> set ?ys"
  show "filter (\<lambda>y. Priority k = Priority y) ?ys = filter (\<lambda>y. Priority k = Priority y) (hs @ [x])"
  proof -
    consider "Priority k < Priority x" | "Priority k = Priority x" | "Priority x < Priority k"
      by linarith
    then show ?thesis
    proof cases
      case 1
      then have "filter (\<lambda>y. Priority k = Priority y) (filter (\<lambda>y. Priority x < Priority y) hs) = []"
        "filter (\<lambda>y. Priority k = Priority y) (filter (\<lambda>y. Priority y \<le> Priority x) hs) =
         filter (\<lambda>y. Priority k = Priority y) hs"
        by (auto simp add: filter_empty_conv intro: filter_cong)
      with 1 show ?thesis by simp
    next
      case 2
      then have "filter (\<lambda>y. Priority k = Priority y) (filter (\<lambda>y. Priority x < Priority y) hs) = []"
        "filter (\<lambda>y. Priority k = Priority y) (filter (\<lambda>y. Priority y \<le> Priority x) hs) =
         filter (\<lambda>y. Priority k = Priority y) hs"
        by (auto simp add: filter_empty_conv intro: filter_cong)
      with 2 show ?thesis by simp
    next
      case 3
      then have "filter (\<lambda>y. Priority k = Priority y) (filter (\<lambda>y. Priority y \<le> Priority x) hs) = []"
        "filter (\<lambda>y. Priority k = Priority y) (filter (\<lambda>y. Priority x < Priority y) hs) =
         filter (\<lambda>y. Priority k = Priority y) hs"
        by (auto simp add: filter_empty_conv intro: filter_cong)
      with 3 show ?thesis by simp
    qed
  qed
qed

subsection \<open>Identifier generation\<close>

lemma length_pseudorandomStringWithAlphabet:
  "length (fst (pseudorandomStringWithAlphabet n alphabet g)) = n"
proof (induction n arbitrary: g)
  case 0
  show ?case by simp
next
  case (Suc n)
  obtain k g1 where 1: "Intn (length alphabet) g = (k, g1)"
    by (cases "Intn (length alphabet) g")
  obtain s g2 where 2: "pseudorandomStringWithAlphabet n alphabet g1 = (s, g2)"
    by (cases "pseudorandomStringWithAlphabet n alphabet g1")
  from Suc[of g1] 2 have "length s = n" by simp
  with 1 2 show ?case by simp
qed

lemma length_generateHookId: "length (fst (generateHookId g)) = 20"
  by (simp add: generateHookId_def pseudorandomString_def length_pseudorandomStringWithAlphabet)

lemma DUPLICATE_CHECK_fresh:
  assumes "DUPLICATE_CHECK hs hid g = Some y"
  shows "fst y \<notin> Id' ` set hs"
  by (rule DUPLICATE_CHECK.raw_induct[where P = "\<lambda>hs hid g y. fst y \<notin> Id' ` set hs", OF _ assms])
     (auto simp add: list_ex_iff split: if_splits prod.splits)

lemma DUPLICATE_CHECK_length:
  assumes "DUPLICATE_CHECK hs hid g = Some y"
  shows "length hid = 20 \<longrightarrow> length (fst y) = 20"
proof (rule DUPLICATE_CHECK.raw_induct[
    where P = "\<lambda>hs hid g y. length hid = 20 \<longrightarrow> length (fst y) = 20", OF _ assms])
  fix dc :: "'a Handler list \<Rightarrow> string \<Rightarrow> rand \<Rightarrow> (string \<times> rand) option"
  fix hs hid g y
  assume IH: "\<And>hs hid g y. dc hs hid g = Some y \<Longrightarrow> length hid = 20 \<longrightarrow> length (fst y) = 20"
  assume body: "(if list_ex (\<lambda>existing. Id' existing = hid) hs
      then case generateHookId g of (hid', g') \<Rightarrow> dc hs hid' g'
      else Some (hid, g)) = Some y"
  show "length hid = 20 \<longrightarrow> length (fst y) = 20"
  proof (cases "list_ex (\<lambda>existing. Id' existing = hid) hs")
    case True
    obtain c g1 where c: "generateHookId g = (c, g1)" by (cases "generateHookId g")
    with body True have "dc hs c g1 = Some y" by simp
    moreover have "length c = 20" using length_generateHookId[of g] c by simp
    ultimately show ?thesis using IH by blast
  next
    case False
    with body show ?thesis by auto
  qed
qed

lemma DUPLICATE_CHECK_returns:
  "candidate g k \<notin> Id' ` set hs \<Longrightarrow> \<exists>r. DUPLICATE_CHECK hs hid g = Some r"
proof (induction k arbitrary: g hid)
  case 0
  show ?case
  proof (cases "list_ex (\<lambda>existing. Id' existing = hid) hs")
    case True
    obtain c g1 where c: "generateHookId g = (c, g1)" by (cases "generateHookId g")
    with 0 have "\<not> list_ex (\<lambda>existing. Id' existing = c) hs" by (auto simp: list_ex_iff)
    then have "DUPLICATE_CHECK hs c g1 = Some (c, g1)" by (subst DUPLICATE_CHECK.simps) simp
    with True c show ?thesis by (subst DUPLICATE_CHECK.simps) simp
  next
    case False
    then show ?thesis by (subst DUPLICATE_CHECK.simps) simp
  qed
next
  case (Suc k)
  show ?case
  proof (cases "list_ex (\<lambda>existing. Id' existing = hid) hs")
    case True
    obtain c g1 where c: "generateHookId g = (c, g1)" by (cases "generateHookId g")
    with Suc.prems have "candidate g1 k \<notin> Id' ` set hs" by simp
    from Suc.IH[OF this, of c] obtain r where "DUPLICATE_CHECK hs c g1 = Some r" by blast
    with True c show ?thesis by (subst DUPLICATE_CHECK.simps) simp
  next
    case False
    then show ?thesis by (subst DUPLICATE_CHECK.simps) simp
  qed
qed

lemma pseudorandomStringWithAlphabet_eq:
  "pseudorandomStringWithAlphabet n alphabet g =
     (map (\<lambda>j. alphabet ! (outputs g j mod length alphabet)) [position g..<position g + n],
      g\<lparr>position := position g + n\<rparr>)"
proof (induction n arbitrary: g)
  case 0
  show ?case by simp
next
  case (Suc n)
  show ?case
    by (simp add: Suc.IH Intn_def upt_conv_Cons del: upt_Suc)
qed

lemma generateHookId_eq:
  "generateHookId g =
     (map (\<lambda>j. defaultRandomAlphabet ! (outputs g j mod 62)) [position g..<position g + 20],
      g\<lparr>position := position g + 20\<rparr>)"
  by (simp add: generateHookId_def pseudorandomString_def pseudorandomStringWithAlphabet_eq)
     (simp add: defaultRandomAlphabet_def)

subsection \<open>Replacement\<close>

lemma replace_existing_absent:
  "Id' x \<notin> Id' ` set hs \<Longrightarrow> replace_existing hs x = (hs, False)"
  by (induction hs) auto

lemma replace_existing_present:
  "Id' x \<in> Id' ` set hs \<Longrightarrow>
     \<exists>j<length hs. Id' (hs ! j) = Id' x \<and> (\<forall>i<j. Id' (hs ! i) \<noteq> Id' x) \<and>
        replace_existing hs x = (hs[j := x], True)"
proof (induction hs)
  case Nil
  then show ?case by simp
next
  case (Cons a hs)
  show ?case
  proof (cases "Id' a = Id' x")
    case True
    then show ?thesis by (intro exI[of _ 0]) simp
  next
    case False
    with Cons.prems have "Id' x \<in> Id' ` set hs" by auto
    from Cons.IH[OF this] obtain j where j: "j < length hs" "Id' (hs ! j) = Id' x"
      "\<forall>i<j. Id' (hs ! i) \<noteq> Id' x" "replace_existing hs x = (hs[j := x], True)" by blast
    show ?thesis
    proof (intro exI[of _ "Suc j"] conjI allI impI)
      fix i assume "i < Suc j"
      then show "Id' ((a # hs) ! i) \<noteq> Id' x" using False j(3) by (cases i) auto
    qed (use j False in auto)
  qed
qed

lemma ids_list_update:
  "j < length hs \<Longrightarrow> Id' (hs ! j) = Id' x \<Longrightarrow> map Id' (hs[j := x]) = map Id' hs"
  by (simp add: map_update list_update_same_conv)

subsection \<open>Bind\<close>

lemma Bind_place_auto:
  assumes "Id' x = ''''" and "Bind_place h x g = Some (hid, hs, g')"
  shows "hid \<notin> Id' ` set (handlers h)" and "length hid = 20"
    and "hs = handlers h @ [x\<lparr>Id' := hid\<rparr>]"
proof -
  obtain c g1 where c: "generateHookId g = (c, g1)" by (cases "generateHookId g")
  from assms c have dc: "DUPLICATE_CHECK (handlers h) c g1 = Some (hid, g')"
    and hs: "hs = handlers h @ [x\<lparr>Id' := hid\<rparr>]"
    by (auto simp add: Bind_place_def split: option.splits)
  from DUPLICATE_CHECK_fresh[OF dc] show "hid \<notin> Id' ` set (handlers h)" by simp
  have "length c = 20" using length_generateHookId[of g] c by simp
  with DUPLICATE_CHECK_length[OF dc] show "length hid = 20" by simp
  show "hs = handlers h @ [x\<lparr>Id' := hid\<rparr>]" by (rule hs)
qed

lemma Bind_place_returns:
  assumes "Id' x = ''''" and "candidate g k \<notin> Id' ` set (handlers h)"
  shows "\<exists>r. Bind_place h x g = Some r"
proof -
  obtain c g1 where c: "generateHookId g = (c, g1)" by (cases "generateHookId g")
  have "\<exists>r. DUPLICATE_CHECK (handlers h) c g1 = Some r"
  proof (cases k)
    case 0
    with assms(2) c have "\<not> list_ex (\<lambda>existing. Id' existing = c) (handlers h)"
      by (auto simp add: list_ex_iff)
    then show ?thesis by (subst DUPLICATE_CHECK.simps) simp
  next
    case (Suc k')
    with assms(2) c have "candidate g1 k' \<notin> Id' ` set (handlers h)" by simp
    then show ?thesis by (rule DUPLICATE_CHECK_returns)
  qed
  with assms(1) c show ?thesis by (auto simp add: Bind_place_def)
qed

lemma Bind_place_new:
  "Id' x \<noteq> '''' \<Longrightarrow> Id' x \<notin> Id' ` set (handlers h) \<Longrightarrow>
     Bind_place h x g = Some (Id' x, handlers h @ [x], g)"
  by (simp add: Bind_place_def replace_existing_absent)

lemma Bind_place_replace:
  assumes "Id' x \<noteq> ''''" and "Id' x \<in> Id' ` set (handlers h)"
  shows "\<exists>j<length (handlers h). Id' (handlers h ! j) = Id' x \<and>
           (\<forall>i<j. Id' (handlers h ! i) \<noteq> Id' x) \<and>
           Bind_place h x g = Some (Id' x, (handlers h)[j := x], g)"
proof -
  from replace_existing_present[OF assms(2)] obtain j where
    j: "j < length (handlers h)" "Id' (handlers h ! j) = Id' x"
       "\<forall>i<j. Id' (handlers h ! i) \<noteq> Id' x"
       "replace_existing (handlers h) x = ((handlers h)[j := x], True)" by blast
  from assms(1) j(4) have "Bind_place h x g = Some (Id' x, (handlers h)[j := x], g)"
    by (simp add: Bind_place_def)
  with j show ?thesis by blast
qed

lemma Bind_place_shape:
  assumes "Bind_place h x g = Some (hid, hs, g')"
  shows "(hs = handlers h @ [x\<lparr>Id' := hid\<rparr>] \<and> hid \<notin> Id' ` set (handlers h)
            \<and> (Id' x = '''' \<longrightarrow> length hid = 20) \<and> (Id' x \<noteq> '''' \<longrightarrow> hid = Id' x))
         \<or> (\<exists>j<length (handlers h). Id' (handlers h ! j) = Id' x \<and> Id' x \<noteq> '''' \<and> hid = Id' x
               \<and> hs = (handlers h)[j := x])"
proof (cases "Id' x = ''''")
  case True
  from Bind_place_auto[OF True assms] True show ?thesis by simp
next
  case False
  show ?thesis
  proof (cases "Id' x \<in> Id' ` set (handlers h)")
    case True
    from Bind_place_replace[OF False True, of g] assms False show ?thesis by auto
  next
    case False2: False
    from Bind_place_new[OF False False2, of g] assms False False2 show ?thesis by auto
  qed
qed

lemma Bind_Some:
  "Func x \<noteq> None \<Longrightarrow>
     Bind h (Some x) g = map_option (\<lambda>(hid, hs, g'). (hid, h\<lparr>handlers := SliceStable hs\<rparr>, g'))
                           (Bind_place h x g)"
  by (auto simp add: Bind_def split: option.splits)

lemma Bind_noop:
  "handler = None \<or> (\<exists>x. handler = Some x \<and> Func x = None) \<Longrightarrow> Bind h handler g = Some ('''', h, g)"
  by (auto simp add: Bind_def)

lemma Bind_returns:
  assumes "Func x \<noteq> None" and "Id' x \<noteq> '''' \<or> candidate g k \<notin> Id' ` set (handlers h)"
  shows "\<exists>r. Bind h (Some x) g = Some r"
proof (cases "Id' x = ''''")
  case True
  with assms(2) Bind_place_returns[of x g k h] obtain r where "Bind_place h x g = Some r" by auto
  with assms(1) show ?thesis by (cases r) (simp add: Bind_Some)
next
  case False
  then have "\<exists>r. Bind_place h x g = Some r"
    by (simp add: Bind_place_def split: prod.splits)
  then obtain r where "Bind_place h x g = Some r" by blast
  with assms(1) show ?thesis by (cases r) (simp add: Bind_Some)
qed

lemma Bind_fresh:
  assumes "Func x \<noteq> None" and "Id' x \<notin> Id' ` set (handlers h)"
    and "Bind h (Some x) g = Some (hid, h', g')"
  shows "handlers h' = SliceStable (handlers h @ [x\<lparr>Id' := hid\<rparr>])"
    and "hid \<notin> Id' ` set (handlers h)"
proof -
  from assms(1,3) obtain placed where p: "Bind_place h x g = Some (hid, placed, g')"
    and h': "handlers h' = SliceStable placed"
    by (auto simp add: Bind_Some)
  have "Id' (handlers h ! j) \<noteq> Id' x" if "j < length (handlers h)" for j
    using assms(2) nth_mem[OF that] by (metis imageI)
  with Bind_place_shape[OF p]
  have "placed = handlers h @ [x\<lparr>Id' := hid\<rparr>] \<and> hid \<notin> Id' ` set (handlers h)"
    by blast
  with h' show "handlers h' = SliceStable (handlers h @ [x\<lparr>Id' := hid\<rparr>])"
    and "hid \<notin> Id' ` set (handlers h)" by simp_all
qed

subsection \<open>Unbind\<close>

lemma unbind_scan_cases:
  "n \<le> length hs \<Longrightarrow>
     (unbind_scan hs n hid = hs \<and> hid \<notin> Id' ` set (take n hs))
     \<or> (\<exists>a m b. hs = a @ m # b \<and> Id' m = hid \<and> unbind_scan hs n hid = a @ b)"
proof (induction n)
  case 0
  show ?case by simp
next
  case (Suc n)
  then have n: "n < length hs" by simp
  show ?case
  proof (cases "Id' (hs ! n) = hid")
    case True
    have "hs = take n hs @ hs ! n # drop (Suc n) hs" using n by (rule id_take_nth_drop)
    with True show ?thesis by auto
  next
    case False
    with Suc.IH n show ?thesis by (auto simp add: take_Suc_conv_app_nth)
  qed
qed

lemma unbind_scan_absent:
  "hid \<notin> Id' ` set hs \<Longrightarrow> unbind_scan hs (length hs) hid = hs"
  using unbind_scan_cases[of "length hs" hs hid] by auto

lemma Unbind_absent:
  "\<forall>hid\<in>set ids. hid \<notin> Id' ` set (handlers h) \<Longrightarrow> Unbind h ids = h"
proof -
  have "\<forall>hid\<in>set ids. hid \<notin> Id' ` set hs \<Longrightarrow>
          fold (\<lambda>hid hs. unbind_scan hs (length hs) hid) ids hs = hs" for hs :: "'a Handler list"
    by (induction ids) (simp_all add: unbind_scan_absent)
  then show "\<forall>hid\<in>set ids. hid \<notin> Id' ` set (handlers h) \<Longrightarrow> Unbind h ids = h"
    by (simp add: Unbind_def)
qed

subsection \<open>What holds of every hook\<close>

lemma well_formed_remove: "well_formed (a @ m # b) \<Longrightarrow> well_formed (a @ b)"
  by (auto simp add: well_formed_def sorted_append)

lemma well_formed_unbind_scan:
  "well_formed hs \<Longrightarrow> well_formed (unbind_scan hs (length hs) hid)"
  using unbind_scan_cases[of "length hs" hs hid] well_formed_remove by fastforce

lemma well_formed_Unbind: "well_formed (handlers h) \<Longrightarrow> well_formed (handlers (Unbind h ids))"
proof -
  have "well_formed hs \<Longrightarrow>
          well_formed (fold (\<lambda>hid hs. unbind_scan hs (length hs) hid) ids hs)"
    for hs :: "'a Handler list"
    by (induction ids arbitrary: hs) (simp_all add: well_formed_unbind_scan)
  then show "well_formed (handlers h) \<Longrightarrow> well_formed (handlers (Unbind h ids))"
    by (simp add: Unbind_def)
qed

lemma well_formed_SliceStable:
  assumes "distinct (map Id' hs)" "'''' \<notin> Id' ` set hs" "\<forall>x\<in>set hs. Func x \<noteq> None"
  shows "well_formed (SliceStable hs)"
  using assms
  by (simp add: well_formed_def sorted_SliceStable distinct_ids_SliceStable set_SliceStable)

lemma well_formed_Bind:
  assumes "well_formed (handlers h)" and "Bind h handler g = Some (hid, h', g')"
  shows "well_formed (handlers h')"
proof (cases "handler = None \<or> (\<exists>x. handler = Some x \<and> Func x = None)")
  case True
  from Bind_noop[OF True, of h g] assms show ?thesis by simp
next
  case False
  then obtain x where x: "handler = Some x" "Func x \<noteq> None" by auto
  with assms(2) obtain hs where p: "Bind_place h x g = Some (hid, hs, g')"
    and h': "handlers h' = SliceStable hs"
    by (auto simp add: Bind_Some)
  from assms(1) have wf: "distinct (map Id' (handlers h))" "'''' \<notin> Id' ` set (handlers h)"
    "\<forall>x\<in>set (handlers h). Func x \<noteq> None" by (simp_all add: well_formed_def)
  from Bind_place_shape[OF p] show ?thesis
  proof (elim disjE conjE exE)
    assume a: "hs = handlers h @ [x\<lparr>Id' := hid\<rparr>]" "hid \<notin> Id' ` set (handlers h)"
      "Id' x = '''' \<longrightarrow> length hid = 20" "Id' x \<noteq> '''' \<longrightarrow> hid = Id' x"
    then have "hid \<noteq> ''''" by (cases "Id' x = ''''") auto
    with a wf x show ?thesis unfolding h' by (intro well_formed_SliceStable) auto
  next
    fix j assume j: "j < length (handlers h)" "Id' (handlers h ! j) = Id' x" "Id' x \<noteq> ''''"
      "hid = Id' x" "hs = (handlers h)[j := x]"
    have "map Id' hs = map Id' (handlers h)" using j by (simp add: ids_list_update)
    moreover have "set hs \<subseteq> insert x (set (handlers h))" unfolding j(5) by (rule set_update_subset_insert)
    ultimately show ?thesis using wf x j(3) unfolding h'
      by (intro well_formed_SliceStable) (auto simp flip: set_map)
  qed
qed

lemma Trigger_hook: "Trigger h e fs = (r, h', e') \<Longrightarrow> h' = h"
  by (auto simp add: Trigger_def Let_def split: prod.splits)

lemma reachable_well_formed: "reachable h \<Longrightarrow> well_formed (handlers h)"
proof (induction rule: reachable.induct)
  case zero
  show ?case by (simp add: well_formed_def)
next
  case (bind h handler g hid h' g')
  then show ?case using well_formed_Bind by blast
next
  case (unbind h ids)
  then show ?case by (simp add: well_formed_Unbind)
next
  case (unbind_all h)
  show ?case by (simp add: UnbindAll_def well_formed_def)
next
  case (trigger h event fs r h' event')
  then show ?case using Trigger_hook by blast
qed

subsection \<open>The concrete inputs\<close>

lemma Bind_ex_hook:
  "Bind ex_hook0 (Some exH1) g = Some (''H1'', ex_hook1, g)"
  "Bind ex_hook1 (Some exH2) g = Some (''H2'', ex_hook2, g)"
  "Bind ex_hook2 (Some exH3) g = Some (''H3'', ex_hook3, g)"
  by (simp_all add: Bind_def Bind_place_def SliceStable_def ex_hook0_def ex_hook1_def
        ex_hook2_def ex_hook3_def exH1_def exH2_def exH3_def)

lemma reachable_ex_hook:
  "reachable ex_hook0" "reachable ex_hook1" "reachable ex_hook2" "reachable ex_hook3"
proof -
  show 0: "reachable ex_hook0" unfolding ex_hook0_def by (rule reachable.zero)
  show 1: "reachable ex_hook1" by (rule reachable.bind[OF 0 Bind_ex_hook(1)[of ex_rand]])
  show 2: "reachable ex_hook2" by (rule reachable.bind[OF 1 Bind_ex_hook(2)[of ex_rand]])
  show "reachable ex_hook3" by (rule reachable.bind[OF 2 Bind_ex_hook(3)[of ex_rand]])
qed

lemma generateHookId_ex_rand:
  "generateHookId ex_rand = (''ABCDEFGHIJKLMNOPQRST'', ex_rand\<lparr>position := 20\<rparr>)"
  "generateHookId (ex_rand\<lparr>position := 20\<rparr>) = (''UVWXYZabcdefghijklmn'', ex_rand\<lparr>position := 40\<rparr>)"
  "generateHookId (ex_rand\<lparr>position := 40\<rparr>) = (''opqrstuvwxyz01234567'', ex_rand\<lparr>position := 60\<rparr>)"
  unfolding generateHookId_eq ex_rand_def
  by (simp_all add: upt_rec defaultRandomAlphabet_def)

lemma generateHookId_ex_rand2:
  "generateHookId ex_rand2 = (''ABCDEFGHIJKLMNOPQRST'', ex_rand2\<lparr>position := 20\<rparr>)"
  "generateHookId (ex_rand2\<lparr>position := 20\<rparr>) = (''ABCDEFGHIJKLMNOPQRST'', ex_rand2\<lparr>position := 40\<rparr>)"
  "generateHookId (ex_rand2\<lparr>position := 40\<rparr>) = (''opqrstuvwxyz01234567'', ex_rand2\<lparr>position := 60\<rparr>)"
  unfolding generateHookId_eq ex_rand2_def
  by (simp_all add: upt_rec defaultRandomAlphabet_def)

lemma Bind_ex_auto:
  "Bind ex_hook0 (Some exN) ex_rand2 =
     Some (''ABCDEFGHIJKLMNOPQRST'', ex_auto1, ex_rand2\<lparr>position := 20\<rparr>)"
  "Bind ex_auto1 (Some exN) (ex_rand2\<lparr>position := 20\<rparr>) =
     Some (''opqrstuvwxyz01234567'', ex_auto2, ex_rand2\<lparr>position := 60\<rparr>)"
proof -
  have 1: "DUPLICATE_CHECK [] ''ABCDEFGHIJKLMNOPQRST'' (ex_rand2\<lparr>position := 20\<rparr>) =
             Some (''ABCDEFGHIJKLMNOPQRST'', ex_rand2\<lparr>position := 20\<rparr>)"
    by (subst DUPLICATE_CHECK.simps) simp
  have 2: "DUPLICATE_CHECK (handlers ex_auto1) ''opqrstuvwxyz01234567'' (ex_rand2\<lparr>position := 60\<rparr>) =
             Some (''opqrstuvwxyz01234567'', ex_rand2\<lparr>position := 60\<rparr>)"
    by (subst DUPLICATE_CHECK.simps) (simp add: ex_auto1_def exN_def)
  have 3: "DUPLICATE_CHECK (handlers ex_auto1) ''ABCDEFGHIJKLMNOPQRST'' (ex_rand2\<lparr>position := 40\<rparr>) =
             Some (''opqrstuvwxyz01234567'', ex_rand2\<lparr>position := 60\<rparr>)"
    by (subst DUPLICATE_CHECK.simps) (simp add: generateHookId_ex_rand2 2, simp add: ex_auto1_def exN_def)
  show "Bind ex_hook0 (Some exN) ex_rand2 =
     Some (''ABCDEFGHIJKLMNOPQRST'', ex_auto1, ex_rand2\<lparr>position := 20\<rparr>)"
    by (simp add: Bind_def Bind_place_def generateHookId_ex_rand2 1 ex_hook0_def ex_auto1_def
          SliceStable_def exN_def)
  show "Bind ex_auto1 (Some exN) (ex_rand2\<lparr>position := 20\<rparr>) =
     Some (''opqrstuvwxyz01234567'', ex_auto2, ex_rand2\<lparr>position := 60\<rparr>)"
    by (simp add: Bind_def Bind_place_def generateHookId_ex_rand2 3)
       (simp add: ex_auto1_def ex_auto2_def SliceStable_def exN_def)
qed

lemma Bind_ex_rebound:
  "Bind ex_hook3 (Some (exH2\<lparr>Priority := 0\<rparr>)) g = Some (''H2'', ex_rebound, g)"
  by (simp add: Bind_def Bind_place_def replace_existing.simps SliceStable_def
        ex_hook3_def ex_rebound_def exH1_def exH2_def exH3_def)

lemma Trigger_ex_rebound:
  "Trigger ex_rebound ex_event [] =
     (Ret None, ex_rebound, \<lparr>next_func = NilFunc, payload = [''H2'', ''H1'', ''H3'']\<rparr>)"
proof -
  have "\<forall>x\<in>set (handlers ex_rebound). Func x = Some (logs (Id' x))"
    by (simp add: ex_rebound_def exH1_def exH2_def exH3_def)
  from Trigger_logs[OF this, of ex_event] show ?thesis
    by (simp add: ex_rebound_def exH1_def exH2_def exH3_def ex_event_def)
qed




section \<open>The hook pipeline: order, chain and errors\<close>

text \<open>
  C1. \<^verbatim>\<open>Trigger\<close> runs the handlers in the order of the registry: when every handler
  function appends the name of its handler to the log and continues, the log grows by
  the names in registry order. The registry of a hook a program can hold is in ascending
  priority order, with ties in the order of the sequence that \<^verbatim>\<open>Bind\<close> sorts. A
  \<^verbatim>\<open>Bind\<close> of a handler under a new id puts it behind every handler whose priority is at
  most its own and before every handler of greater priority, so these ties are in
  insertion order. A \<^verbatim>\<open>Bind\<close> under a registered id writes the handler into the slot
  \<open>j\<close> of the handler it replaces and sorts: among the handlers of its priority it
  stands where slot \<open>j\<close> stands, in front of the handlers of that priority behind slot
  \<open>j\<close>, whenever they were bound. Binding \<open>H1\<close> (priority 0), \<open>H2\<close> (priority -5)
  and \<open>H3\<close> (priority 0) in this order to the zero hook and triggering gives the log
  \<open>[H2, H1, H3]\<close>, with ids given by the caller and with generated ids.
\<close>

theorem Trigger_priority_order:
  "((\<forall>x\<in>set (handlers h). Func x = Some (logs (nm x))) \<longrightarrow>
      Trigger h e [] =
        (Ret None, h, \<lparr>next_func = NilFunc, payload = payload e @ map nm (handlers h)\<rparr>))
   \<and> (reachable h \<longrightarrow> sorted (map Priority (handlers h)))
   \<and> (reachable h \<and> Func x \<noteq> None \<and> Id' x \<notin> Id' ` set (handlers h)
        \<and> Bind h (Some x) g = Some (hid, h', g') \<longrightarrow>
      handlers h' = filter (\<lambda>y. Priority y \<le> Priority x) (handlers h) @ [x\<lparr>Id' := hid\<rparr>]
                      @ filter (\<lambda>y. Priority x < Priority y) (handlers h))
   \<and> (reachable h \<and> Func x \<noteq> None \<and> Id' x \<in> Id' ` set (handlers h)
        \<and> Bind h (Some x) g = Some (hid, h', g') \<longrightarrow>
      (\<exists>j<length (handlers h). Id' (handlers h ! j) = Id' x
          \<and> sorted (map Priority (handlers h'))
          \<and> (\<forall>k. filter (\<lambda>y. Priority y = k) (handlers h') =
                   filter (\<lambda>y. Priority y = k) ((handlers h)[j := x]))))
   \<and> Bind \<lparr>handlers = []\<rparr> (Some exH1) g = Some (''H1'', ex_hook1, g)
   \<and> Bind ex_hook1 (Some exH2) g = Some (''H2'', ex_hook2, g)
   \<and> Bind ex_hook2 (Some exH3) g = Some (''H3'', ex_hook3, g)
   \<and> Trigger ex_hook3 \<lparr>next_func = NilFunc, payload = []\<rparr> [] =
        (Ret None, ex_hook3, \<lparr>next_func = NilFunc, payload = [''H2'', ''H1'', ''H3'']\<rparr>)
   \<and> (Bind \<lparr>handlers = []\<rparr> (Some (exH1\<lparr>Id' := ''''\<rparr>)) g = Some (i1, h1, g1)
        \<and> Bind h1 (Some (exH2\<lparr>Id' := ''''\<rparr>)) g1 = Some (i2, h2, g2)
        \<and> Bind h2 (Some (exH3\<lparr>Id' := ''''\<rparr>)) g2 = Some (i3, h3, g3) \<longrightarrow>
      Trigger h3 \<lparr>next_func = NilFunc, payload = []\<rparr> [] =
        (Ret None, h3, \<lparr>next_func = NilFunc, payload = [''H2'', ''H1'', ''H3'']\<rparr>))"
proof -
  have 1: "Trigger h e [] =
        (Ret None, h, \<lparr>next_func = NilFunc, payload = payload e @ map nm (handlers h)\<rparr>)"
    if "\<forall>x\<in>set (handlers h). Func x = Some (logs (nm x))"
    using that by (rule Trigger_logs)
  have 2: "handlers h' = filter (\<lambda>y. Priority y \<le> Priority x) (handlers h) @ [x\<lparr>Id' := hid\<rparr>]
                      @ filter (\<lambda>y. Priority x < Priority y) (handlers h)"
    if a: "reachable h \<and> Func x \<noteq> None \<and> Id' x \<notin> Id' ` set (handlers h)
        \<and> Bind h (Some x) g = Some (hid, h', g')"
  proof -
    from a reachable_well_formed[of h] have s: "sorted (map Priority (handlers h))"
      by (simp add: well_formed_def)
    from a Bind_fresh(1)[of x h g hid h' g']
    have "handlers h' = SliceStable (handlers h @ [x\<lparr>Id' := hid\<rparr>])" by simp
    with SliceStable_snoc[OF s, of "x\<lparr>Id' := hid\<rparr>"] show ?thesis by simp
  qed
  have 6: "\<exists>j<length (handlers h). Id' (handlers h ! j) = Id' x
          \<and> sorted (map Priority (handlers h'))
          \<and> (\<forall>k. filter (\<lambda>y. Priority y = k) (handlers h') =
                   filter (\<lambda>y. Priority y = k) ((handlers h)[j := x]))"
    if a: "reachable h \<and> Func x \<noteq> None \<and> Id' x \<in> Id' ` set (handlers h)
        \<and> Bind h (Some x) g = Some (hid, h', g')"
  proof -
    from a reachable_well_formed[of h] have "'''' \<notin> Id' ` set (handlers h)"
      by (simp add: well_formed_def)
    with a have n: "Id' x \<noteq> ''''" by metis
    from a have i: "Id' x \<in> Id' ` set (handlers h)" by simp
    from Bind_place_replace[OF n i, of g] obtain j where
      j: "j < length (handlers h)" "Id' (handlers h ! j) = Id' x"
         "Bind_place h x g = Some (Id' x, (handlers h)[j := x], g)" by blast
    from a j(3) have "handlers h' = SliceStable ((handlers h)[j := x])"
      by (auto simp add: Bind_Some)
    then have "sorted (map Priority (handlers h'))
          \<and> (\<forall>k. filter (\<lambda>y. Priority y = k) (handlers h') =
                   filter (\<lambda>y. Priority y = k) ((handlers h)[j := x]))"
      by (simp add: sorted_SliceStable stable_SliceStable)
    with j(1,2) show ?thesis by blast
  qed
  have 7: "sorted (map Priority (handlers h))" if "reachable h"
    using reachable_well_formed[OF that] by (simp add: well_formed_def)
  have 3: "Bind \<lparr>handlers = []\<rparr> (Some exH1) g = Some (''H1'', ex_hook1, g)"
    using Bind_ex_hook(1)[of g] by (simp add: ex_hook0_def)
  have 4: "Trigger ex_hook3 \<lparr>next_func = NilFunc, payload = []\<rparr> [] =
        (Ret None, ex_hook3, \<lparr>next_func = NilFunc, payload = [''H2'', ''H1'', ''H3'']\<rparr>)"
  proof -
    have "\<forall>x\<in>set (handlers ex_hook3). Func x = Some (logs (Id' x))"
      by (simp add: ex_hook3_def exH1_def exH2_def exH3_def)
    from Trigger_logs[OF this, of "\<lparr>next_func = NilFunc, payload = []\<rparr>"] show ?thesis
      by (simp add: ex_hook3_def exH1_def exH2_def exH3_def)
  qed
  have 5: "Trigger h3 \<lparr>next_func = NilFunc, payload = []\<rparr> [] =
        (Ret None, h3, \<lparr>next_func = NilFunc, payload = [''H2'', ''H1'', ''H3'']\<rparr>)"
    if a: "Bind \<lparr>handlers = []\<rparr> (Some (exH1\<lparr>Id' := ''''\<rparr>)) g = Some (i1, h1, g1)
        \<and> Bind h1 (Some (exH2\<lparr>Id' := ''''\<rparr>)) g1 = Some (i2, h2, g2)
        \<and> Bind h2 (Some (exH3\<lparr>Id' := ''''\<rparr>)) g2 = Some (i3, h3, g3)"
  proof -
    have b1: "handlers h1 = [exH1\<lparr>Id' := i1\<rparr>]"
      using a Bind_fresh(1)[of "exH1\<lparr>Id' := ''''\<rparr>" "\<lparr>handlers = []\<rparr>" g i1 h1 g1]
      by (simp add: exH1_def SliceStable_def)
    have r1: "reachable h1" using a reachable.bind[OF reachable.zero] by blast
    then have r2: "reachable h2" using a reachable.bind by blast
    from reachable_well_formed[OF r1] have n1: "'''' \<notin> Id' ` set (handlers h1)"
      by (simp add: well_formed_def)
    from reachable_well_formed[OF r2] have n2: "'''' \<notin> Id' ` set (handlers h2)"
      by (simp add: well_formed_def)
    have b2: "handlers h2 = [exH2\<lparr>Id' := i2\<rparr>, exH1\<lparr>Id' := i1\<rparr>]"
      using a n1 Bind_fresh(1)[of "exH2\<lparr>Id' := ''''\<rparr>" h1 g1 i2 h2 g2]
      by (simp add: b1 exH1_def exH2_def SliceStable_def)
    have b3: "handlers h3 = [exH2\<lparr>Id' := i2\<rparr>, exH1\<lparr>Id' := i1\<rparr>, exH3\<lparr>Id' := i3\<rparr>]"
      using a n2 Bind_fresh(1)[of "exH3\<lparr>Id' := ''''\<rparr>" h2 g2 i3 h3 g3]
      by (simp add: b2 exH1_def exH2_def exH3_def SliceStable_def)
    let ?ps = "map (\<lambda>n. (\<lambda>log. log @ [n], \<lambda>(err :: error option) (log :: string list). log))
                 [''H2'', ''H1'', ''H3'']"
    have "map Func (handlers h3) @ [] = map (\<lambda>p. Some (passes (fst p) (snd p))) ?ps"
      by (simp add: b3 exH1_def exH2_def exH3_def logs_def)
    from Trigger_all_pass[OF this, of "\<lparr>next_func = NilFunc, payload = []\<rparr>"] show ?thesis
      by simp
  qed
  show ?thesis
    using 1 2 6 7 by (intro conjI impI 3 Bind_ex_hook(2,3) 4 5) blast+
qed

theorem Trigger_priority_order_witness:
  "Func exH2 = Some (logs (Id' exH2)) \<and> Func exH1 = Some (logs (Id' exH1))
   \<and> handlers ex_hook2 = [exH2, exH1]
   \<and> Trigger ex_hook2 ex_event [] =
       (Ret None, ex_hook2, \<lparr>next_func = NilFunc, payload = [''H2'', ''H1'']\<rparr>)
   \<and> reachable ex_hook2 \<and> Func exH3 \<noteq> None \<and> Id' exH3 \<notin> Id' ` set (handlers ex_hook2)
   \<and> Bind ex_hook2 (Some exH3) ex_rand = Some (''H3'', ex_hook3, ex_rand)
   \<and> handlers ex_hook3 = [exH2, exH1, exH3]
   \<and> sorted (map Priority (handlers ex_hook2))
   \<and> reachable ex_hook3 \<and> Func (exH2\<lparr>Priority := 0\<rparr>) \<noteq> None
   \<and> Id' (exH2\<lparr>Priority := 0\<rparr>) \<in> Id' ` set (handlers ex_hook3)
   \<and> Bind ex_hook3 (Some (exH2\<lparr>Priority := 0\<rparr>)) ex_rand = Some (''H2'', ex_rebound, ex_rand)
   \<and> Id' (handlers ex_hook3 ! 0) = Id' (exH2\<lparr>Priority := 0\<rparr>)
   \<and> sorted (map Priority (handlers ex_rebound))
   \<and> filter (\<lambda>y. Priority y = 0) (handlers ex_rebound) = [exH2\<lparr>Priority := 0\<rparr>, exH1, exH3]
   \<and> Bind \<lparr>handlers = []\<rparr> (Some (exH1\<lparr>Id' := ''''\<rparr>)) ex_rand =
       Some (''ABCDEFGHIJKLMNOPQRST'', ex_ids1, ex_rand\<lparr>position := 20\<rparr>)
   \<and> Bind ex_ids1 (Some (exH2\<lparr>Id' := ''''\<rparr>)) (ex_rand\<lparr>position := 20\<rparr>) =
       Some (''UVWXYZabcdefghijklmn'', ex_ids2, ex_rand\<lparr>position := 40\<rparr>)
   \<and> Bind ex_ids2 (Some (exH3\<lparr>Id' := ''''\<rparr>)) (ex_rand\<lparr>position := 40\<rparr>) =
       Some (''opqrstuvwxyz01234567'', ex_ids3, ex_rand\<lparr>position := 60\<rparr>)
   \<and> Trigger ex_ids3 \<lparr>next_func = NilFunc, payload = []\<rparr> [] =
       (Ret None, ex_ids3, \<lparr>next_func = NilFunc, payload = [''H2'', ''H1'', ''H3'']\<rparr>)"
proof -
  note T = Trigger_priority_order[where h=ex_hook2 and nm="Id'" and e=ex_event and x=exH3
      and g=ex_rand and hid="''H3''" and h'=ex_hook3 and g'=ex_rand
      and ?i1.0="''ABCDEFGHIJKLMNOPQRST''" and ?h1.0=ex_ids1 and ?g1.0="ex_rand\<lparr>position := 20\<rparr>"
      and ?i2.0="''UVWXYZabcdefghijklmn''" and ?h2.0=ex_ids2 and ?g2.0="ex_rand\<lparr>position := 40\<rparr>"
      and ?i3.0="''opqrstuvwxyz01234567''" and ?h3.0=ex_ids3 and ?g3.0="ex_rand\<lparr>position := 60\<rparr>"]
  note R = Trigger_priority_order[where h=ex_hook3 and x="exH2\<lparr>Priority := 0\<rparr>"
      and g=ex_rand and hid="''H2''" and h'=ex_rebound and g'=ex_rand,
      THEN conjunct2, THEN conjunct2, THEN conjunct2, THEN conjunct1, rule_format]
  have f: "Func exH2 = Some (logs (Id' exH2))" "Func exH1 = Some (logs (Id' exH1))"
    by (simp_all add: exH1_def exH2_def)
  have h2: "handlers ex_hook2 = [exH2, exH1]" by (simp add: ex_hook2_def)
  have h3: "handlers ex_hook3 = [exH2, exH1, exH3]" by (simp add: ex_hook3_def)
  from f h2 have a: "\<forall>x\<in>set (handlers ex_hook2). Func x = Some (logs (Id' x))" by simp
  from T a have t2: "Trigger ex_hook2 ex_event [] =
       (Ret None, ex_hook2, \<lparr>next_func = NilFunc, payload = payload ex_event @ map Id' (handlers ex_hook2)\<rparr>)"
    by blast
  then have t2': "Trigger ex_hook2 ex_event [] =
       (Ret None, ex_hook2, \<lparr>next_func = NilFunc, payload = [''H2'', ''H1'']\<rparr>)"
    by (simp add: ex_event_def h2 exH1_def exH2_def)
  from T reachable_ex_hook(3) have so: "sorted (map Priority (handlers ex_hook2))" by blast
  have n: "Func exH3 \<noteq> None" "Id' exH3 \<notin> Id' ` set (handlers ex_hook2)"
    by (simp_all add: h2 exH1_def exH2_def exH3_def)
  have m: "Func (exH2\<lparr>Priority := 0\<rparr>) \<noteq> None"
      "Id' (exH2\<lparr>Priority := 0\<rparr>) \<in> Id' ` set (handlers ex_hook3)"
      "Id' (handlers ex_hook3 ! 0) = Id' (exH2\<lparr>Priority := 0\<rparr>)"
    by (simp_all add: h3 exH2_def)
  have rb: "Bind ex_hook3 (Some (exH2\<lparr>Priority := 0\<rparr>)) ex_rand = Some (''H2'', ex_rebound, ex_rand)"
    by (rule Bind_ex_rebound)
  from R[OF conjI[OF reachable_ex_hook(4) conjI[OF m(1) conjI[OF m(2) rb]]]]
  obtain j where j: "j < length (handlers ex_hook3)"
      "Id' (handlers ex_hook3 ! j) = Id' (exH2\<lparr>Priority := 0\<rparr>)"
      "sorted (map Priority (handlers ex_rebound))"
      "\<forall>k. filter (\<lambda>y. Priority y = k) (handlers ex_rebound) =
           filter (\<lambda>y. Priority y = k) ((handlers ex_hook3)[j := exH2\<lparr>Priority := 0\<rparr>])"
    by blast
  from j(1) have "j = 0 \<or> j = 1 \<or> j = 2" by (auto simp add: h3)
  with j(2) have j0: "j = 0" by (auto simp add: h3 exH1_def exH2_def exH3_def)
  from j(4) j0 have s: "filter (\<lambda>y. Priority y = 0) (handlers ex_rebound) =
       [exH2\<lparr>Priority := 0\<rparr>, exH1, exH3]"
    by (simp add: h3 exH1_def exH2_def exH3_def)
  have d: "DUPLICATE_CHECK hs c gg = Some (c, gg)" if "c \<notin> Id' ` set hs"
    for hs :: "string list Handler list" and c gg
    using that by (subst DUPLICATE_CHECK.simps) (auto simp add: list_ex_iff)
  have b1: "Bind \<lparr>handlers = []\<rparr> (Some (exH1\<lparr>Id' := ''''\<rparr>)) ex_rand =
       Some (''ABCDEFGHIJKLMNOPQRST'', ex_ids1, ex_rand\<lparr>position := 20\<rparr>)"
    by (simp add: Bind_def Bind_place_def generateHookId_ex_rand d ex_ids1_def exH1_def SliceStable_def)
  have b2: "Bind ex_ids1 (Some (exH2\<lparr>Id' := ''''\<rparr>)) (ex_rand\<lparr>position := 20\<rparr>) =
       Some (''UVWXYZabcdefghijklmn'', ex_ids2, ex_rand\<lparr>position := 40\<rparr>)"
    by (simp add: Bind_def Bind_place_def generateHookId_ex_rand d ex_ids1_def ex_ids2_def
          exH1_def exH2_def SliceStable_def)
  have b3: "Bind ex_ids2 (Some (exH3\<lparr>Id' := ''''\<rparr>)) (ex_rand\<lparr>position := 40\<rparr>) =
       Some (''opqrstuvwxyz01234567'', ex_ids3, ex_rand\<lparr>position := 60\<rparr>)"
    by (simp add: Bind_def Bind_place_def generateHookId_ex_rand d ex_ids2_def ex_ids3_def
          exH1_def exH2_def exH3_def SliceStable_def)
  from T b1 b2 b3 have t3: "Trigger ex_ids3 \<lparr>next_func = NilFunc, payload = []\<rparr> [] =
       (Ret None, ex_ids3, \<lparr>next_func = NilFunc, payload = [''H2'', ''H1'', ''H3'']\<rparr>)"
    by blast
  show ?thesis
    by (intro conjI f h2 t2' reachable_ex_hook(3) n Bind_ex_hook(3) h3 so reachable_ex_hook(4)
          m rb j(3) s b1 b2 b3 t3)
qed

text \<open>
  Ties are not in insertion order in general. Bind \<open>H1\<close> (priority 0), \<open>H2\<close>
  (priority -5) and \<open>H3\<close> (priority 0) to the zero hook, and then \<open>H2\<close> again with
  priority 0: \<^verbatim>\<open>Bind\<close> writes it into slot 0, where the old \<open>H2\<close> is, and the stable sort
  leaves it there. The three handlers now have priority 0 and \<^verbatim>\<open>Trigger\<close> runs \<open>H2\<close>
  first, although \<open>H1\<close> was bound before it: the log is neither \<open>[H1, H2, H3]\<close>, the
  order of the first \<^verbatim>\<open>Bind\<close> of each id, nor \<open>[H1, H3, H2]\<close>, the order of the last.
\<close>

theorem Trigger_priority_order_counterexample:
  "Bind \<lparr>handlers = []\<rparr> (Some exH1) ex_rand = Some (''H1'', ex_hook1, ex_rand)
   \<and> Bind ex_hook1 (Some exH2) ex_rand = Some (''H2'', ex_hook2, ex_rand)
   \<and> Bind ex_hook2 (Some exH3) ex_rand = Some (''H3'', ex_hook3, ex_rand)
   \<and> Bind ex_hook3 (Some (exH2\<lparr>Priority := 0\<rparr>)) ex_rand = Some (''H2'', ex_rebound, ex_rand)
   \<and> map Priority (handlers ex_rebound) = [0, 0, 0]
   \<and> map Id' (handlers ex_rebound) = [''H2'', ''H1'', ''H3'']
   \<and> Trigger ex_rebound ex_event [] =
       (Ret None, ex_rebound, \<lparr>next_func = NilFunc, payload = [''H2'', ''H1'', ''H3'']\<rparr>)
   \<and> payload (snd (snd (Trigger ex_rebound ex_event []))) \<noteq> [''H1'', ''H2'', ''H3'']
   \<and> payload (snd (snd (Trigger ex_rebound ex_event []))) \<noteq> [''H1'', ''H3'', ''H2'']"
proof -
  have 1: "Bind \<lparr>handlers = []\<rparr> (Some exH1) ex_rand = Some (''H1'', ex_hook1, ex_rand)"
    using Bind_ex_hook(1)[of ex_rand] by (simp add: ex_hook0_def)
  have 2: "map Priority (handlers ex_rebound) = [0, 0, 0]"
    by (simp add: ex_rebound_def exH1_def exH2_def exH3_def)
  have 3: "map Id' (handlers ex_rebound) = [''H2'', ''H1'', ''H3'']"
    by (simp add: ex_rebound_def exH1_def exH2_def exH3_def)
  have 4: "payload (snd (snd (Trigger ex_rebound ex_event []))) \<noteq> [''H1'', ''H2'', ''H3'']"
    by (simp add: Trigger_ex_rebound)
  have 5: "payload (snd (snd (Trigger ex_rebound ex_event []))) \<noteq> [''H1'', ''H3'', ''H2'']"
    by (simp add: Trigger_ex_rebound)
  show ?thesis
    by (intro conjI 1 Bind_ex_hook(2,3) Bind_ex_rebound 2 3 Trigger_ex_rebound 4 5)
qed

text \<open>
  C2. \<^verbatim>\<open>Trigger\<close> runs \<^verbatim>\<open>Next\<close> on the event with the chain for the indices
  \<open>0, ..., n - 1\<close> of the local handler list installed. The loop goes from the last index
  to the first, so the continuation for index \<open>i\<close> is the closure that holds the
  continuation for the indices after \<open>i\<close>; the one for the last index holds nil. Calling
  the continuation for \<open>i\<close> first installs the continuation it holds and then calls
  function \<open>i\<close> on the event. \<^verbatim>\<open>Next\<close> on an event whose continuation is nil returns nil
  and leaves the event as it is.
\<close>

theorem Trigger_builds_chain:
  fixes h :: "'w Hook" and e :: "'w Event"
  assumes "hs = map Func (handlers h) @ fs"
  shows "Trigger h e fs =
           (case Next (e\<lparr>next_func := chain hs [0..<length hs] NilFunc\<rparr>) of
              (r, e') \<Rightarrow> (r, h, e'))
         \<and> (\<forall>i<length hs. chain hs [i..<length hs] NilFunc =
                Closure (chain hs [Suc i..<length hs] NilFunc) hs i)
         \<and> (\<forall>i<length hs. \<forall>fn rest ev. hs ! i = Some fn \<longrightarrow>
                call_closure (Closure rest hs i) ev = call_func fn (ev\<lparr>next_func := rest\<rparr>))
         \<and> (\<forall>ev :: 'w Event. next_func ev = NilFunc \<longrightarrow> Next ev = (Ret None, ev))"
proof -
  have 1: "Trigger h e fs =
          (case Next (e\<lparr>next_func := chain hs [0..<length hs] NilFunc\<rparr>) of
             (r, e') \<Rightarrow> (r, h, e'))"
    by (simp add: assms Trigger_chain)
  have 2: "chain hs [i..<length hs] NilFunc =
               Closure (chain hs [Suc i..<length hs] NilFunc) hs i" if "i < length hs" for i
    using that by (simp add: upt_conv_Cons)
  have 3: "call_closure (Closure rest hs i) ev = call_func fn (ev\<lparr>next_func := rest\<rparr>)"
    if "i < length hs" "hs ! i = Some fn" for i fn rest and ev :: "'w Event"
    using that by (simp add: setNextFunc_def)
  have 4: "Next ev = (Ret None, ev)" if "next_func ev = NilFunc" for ev :: "'w Event"
    using that by (rule Next_NilFunc)
  show ?thesis using 1 2 3 4 by simp
qed

theorem Trigger_builds_chain_witness:
  "[Some (logs ''A''), Some (logs ''B'')] = map Func (handlers \<lparr>handlers = [exA]\<rparr>) @ [Some (logs ''B'')]
   \<and> (1::nat) < length [Some (logs ''A''), Some (logs ''B'')]
   \<and> [Some (logs ''A''), Some (logs ''B'')] ! 1 = Some (logs ''B'')
   \<and> next_func \<lparr>next_func = NilFunc, payload = [''A'', ''B'']\<rparr> = NilFunc
   \<and> chain [Some (logs ''A''), Some (logs ''B'')] [1..<2] NilFunc =
       Closure NilFunc [Some (logs ''A''), Some (logs ''B'')] 1
   \<and> call_closure (Closure NilFunc [Some (logs ''A''), Some (logs ''B'')] 1)
         \<lparr>next_func = Closure NilFunc [] 7, payload = [''A'']\<rparr> =
       call_func (logs ''B'') \<lparr>next_func = NilFunc, payload = [''A'']\<rparr>
   \<and> Next \<lparr>next_func = NilFunc, payload = [''A'', ''B'']\<rparr> =
       (Ret None, \<lparr>next_func = NilFunc, payload = [''A'', ''B'']\<rparr>)
   \<and> Trigger \<lparr>handlers = [exA]\<rparr>
         \<lparr>next_func = Closure NilFunc [] 7, payload = []\<rparr> [Some (logs ''B'')] =
       (Ret None, \<lparr>handlers = [exA]\<rparr>, \<lparr>next_func = NilFunc, payload = [''A'', ''B'']\<rparr>)"
proof -
  let ?hs = "[Some (logs ''A''), Some (logs ''B'')]"
  let ?e = "\<lparr>next_func = Closure NilFunc [] 7, payload = [] :: string list\<rparr>"
  have h: "?hs = map Func (handlers \<lparr>handlers = [exA]\<rparr>) @ [Some (logs ''B'')]"
    by (simp add: exA_def)
  have i: "(1::nat) < length ?hs" by simp
  have n: "?hs ! 1 = Some (logs ''B'')" by simp
  have z: "next_func \<lparr>next_func = NilFunc, payload = [''A'', ''B'']\<rparr> = NilFunc" by simp
  note T = Trigger_builds_chain[OF h, of ?e]
  note c = T[THEN conjunct2, THEN conjunct1, rule_format, OF i]
  note k = T[THEN conjunct2, THEN conjunct2, THEN conjunct1, rule_format, OF i n]
  note x = T[THEN conjunct2, THEN conjunct2, THEN conjunct2, rule_format, OF z]
  have t: "Trigger \<lparr>handlers = [exA]\<rparr> ?e [Some (logs ''B'')] =
       (Ret None, \<lparr>handlers = [exA]\<rparr>, \<lparr>next_func = NilFunc, payload = [''A'', ''B'']\<rparr>)"
    unfolding T[THEN conjunct1]
    by (simp add: Next.simps setNextFunc_def logs_def passes_def upt_conv_Cons)
  have c': "chain ?hs [1..<2] NilFunc = Closure NilFunc ?hs 1"
    using c by (simp add: upt_conv_Cons)
  have k': "call_closure (Closure NilFunc ?hs 1)
         \<lparr>next_func = Closure NilFunc [] 7, payload = [''A'']\<rparr> =
       call_func (logs ''B'') \<lparr>next_func = NilFunc, payload = [''A'']\<rparr>"
    using k[of NilFunc "\<lparr>next_func = Closure NilFunc [] 7, payload = [''A'']\<rparr>"] by simp
  show ?thesis by (intro conjI h i n z c' k' x t)
qed




text \<open>
  C4. When the functions of the registered handlers and the one-off functions all do
  their work, continue and pass the outcome on, \<^verbatim>\<open>Trigger\<close> runs the work of the
  registered handlers in registry order and then the work of the one-off functions in
  the order given. Whatever the functions are, the hook after the call is the hook
  before it, so \<^verbatim>\<open>Length\<close> is unchanged; and a second \<^verbatim>\<open>Trigger\<close> without
  one-off functions, on the hook and the event the first call left, runs the registered
  handlers only.
\<close>

theorem Trigger_one_off:
  fixes ps qs :: "(('w \<Rightarrow> 'w) \<times> (error option \<Rightarrow> 'w \<Rightarrow> 'w)) list"
  shows
  "(map Func (handlers h) = map (\<lambda>p. Some (passes (fst p) (snd p))) ps
      \<and> fs = map (\<lambda>p. Some (passes (fst p) (snd p))) qs \<longrightarrow>
      Trigger h e fs =
        (Ret None, h, e\<lparr>next_func := NilFunc,
           payload := foldr (\<lambda>p. snd p None) ps (foldr (\<lambda>p. snd p None) qs
                        (fold fst qs (fold fst ps (payload e))))\<rparr>))
   \<and> (Trigger h e fs' = (r, h', e') \<longrightarrow> h' = h \<and> Length h' = Length h)
   \<and> (map Func (handlers h) = map (\<lambda>p. Some (passes (fst p) (snd p))) ps
      \<and> Trigger h e fs' = (r, h', e') \<longrightarrow>
      Trigger h' e' [] =
        (Ret None, h, e'\<lparr>next_func := NilFunc,
           payload := foldr (\<lambda>p. snd p None) ps (fold fst ps (payload e'))\<rparr>))"
proof (intro conjI impI)
  assume a: "map Func (handlers h) = map (\<lambda>p. Some (passes (fst p) (snd p))) ps
      \<and> fs = map (\<lambda>p. Some (passes (fst p) (snd p))) qs"
  then have "map Func (handlers h) @ fs = map (\<lambda>p. Some (passes (fst p) (snd p))) (ps @ qs)"
    by simp
  from Trigger_all_pass[OF this, of e]
  show "Trigger h e fs =
        (Ret None, h, e\<lparr>next_func := NilFunc,
           payload := foldr (\<lambda>p. snd p None) ps (foldr (\<lambda>p. snd p None) qs
                        (fold fst qs (fold fst ps (payload e))))\<rparr>)"
    by simp
next
  assume "Trigger h e fs' = (r, h', e')"
  then show "h' = h" by (rule Trigger_hook)
next
  assume b: "Trigger h e fs' = (r, h', e')"
  from Trigger_hook[OF b] show "Length h' = Length h" by simp
next
  assume a: "map Func (handlers h) = map (\<lambda>p. Some (passes (fst p) (snd p))) ps
      \<and> Trigger h e fs' = (r, h', e')"
  then have "Trigger h e fs' = (r, h', e')" by simp
  then have h': "h' = h" by (rule Trigger_hook)
  from a have "map Func (handlers h) @ [] = map (\<lambda>p. Some (passes (fst p) (snd p))) ps" by simp
  from Trigger_all_pass[OF this, of e']
  show "Trigger h' e' [] =
        (Ret None, h, e'\<lparr>next_func := NilFunc,
           payload := foldr (\<lambda>p. snd p None) ps (fold fst ps (payload e'))\<rparr>)"
    by (simp add: h')
qed

theorem Trigger_one_off_witness:
  "map Func (handlers ex_hook3) =
     map (\<lambda>p. Some (passes (fst p) (snd p))) [logging ''H2'', logging ''H1'', logging ''H3'']
   \<and> [Some (logs ''X''), Some (logs ''Y'')] =
       map (\<lambda>p. Some (passes (fst p) (snd p))) [logging ''X'', logging ''Y'']
   \<and> Trigger ex_hook3 ex_event [Some (logs ''X''), Some (logs ''Y'')] =
       (Ret None, ex_hook3,
        \<lparr>next_func = NilFunc, payload = [''H2'', ''H1'', ''H3'', ''X'', ''Y'']\<rparr>)
   \<and> Length ex_hook3 = 3
   \<and> Trigger ex_hook3 \<lparr>next_func = NilFunc, payload = [''H2'', ''H1'', ''H3'', ''X'', ''Y'']\<rparr> [] =
       (Ret None, ex_hook3,
        \<lparr>next_func = NilFunc,
          payload = [''H2'', ''H1'', ''H3'', ''X'', ''Y'', ''H2'', ''H1'', ''H3'']\<rparr>)"
proof -
  let ?ps = "[logging ''H2'', logging ''H1'', logging ''H3'']"
  let ?qs = "[logging ''X'', logging ''Y'']"
  let ?fs = "[Some (logs ''X''), Some (logs ''Y'')]"
  let ?e1 = "\<lparr>next_func = NilFunc, payload = [''H2'', ''H1'', ''H3'', ''X'', ''Y'']\<rparr>"
  have a: "map Func (handlers ex_hook3) = map (\<lambda>p. Some (passes (fst p) (snd p))) ?ps"
    by (simp add: ex_hook3_def exH1_def exH2_def exH3_def logging_def logs_def)
  have b: "?fs = map (\<lambda>p. Some (passes (fst p) (snd p))) ?qs"
    by (simp add: logging_def logs_def)
  note T = Trigger_one_off[where h=ex_hook3 and ps="?ps" and fs="?fs" and qs="?qs"
      and e=ex_event and fs'="?fs" and r="Ret None" and h'=ex_hook3 and e'="?e1"]
  from T a b have 1: "Trigger ex_hook3 ex_event ?fs = (Ret None, ex_hook3, ?e1)"
    by (simp add: logging_def ex_event_def)
  have 2: "Length ex_hook3 = 3" by (simp add: Length_def ex_hook3_def)
  from T a 1 have 3: "Trigger ex_hook3 ?e1 [] =
       (Ret None, ex_hook3,
        \<lparr>next_func = NilFunc,
          payload = [''H2'', ''H1'', ''H3'', ''X'', ''Y'', ''H2'', ''H1'', ''H3'']\<rparr>)"
    by (simp add: logging_def)
  show ?thesis by (intro conjI a b 1 2 3)
qed

text \<open>
  C5. \<^verbatim>\<open>Trigger\<close> sets the continuation of the event to nil before it builds the chain, so
  its result does not depend on the continuation that the event brings along. A first
  call whose one-off function \<open>X1\<close> stops the chain leaves the continuation for the
  one-off function \<open>X2\<close> in the event; a second call with that event and the one-off
  function \<open>Y\<close> runs the registered handler and \<open>Y\<close>, and not \<open>X2\<close>. The chain built
  on the event as it was left, without the reset, would run \<open>X2\<close> after \<open>Y\<close>.
\<close>

theorem Trigger_resets_continuation:
  "Trigger h (e\<lparr>next_func := c\<rparr>) fs = Trigger h (e\<lparr>next_func := NilFunc\<rparr>) fs
   \<and> Trigger ex_hookA ex_event ex_first = (Ret (Some ''fail''), ex_hookA, ex_stale)
   \<and> next_func ex_stale \<noteq> NilFunc
   \<and> Trigger ex_hookA ex_stale [Some (logs ''Y'')] =
       (Ret None, ex_hookA, \<lparr>next_func = NilFunc, payload = [''A'', ''X1'', ''A'', ''Y'']\<rparr>)
   \<and> Next (build_chain [Some (logs ''A''), Some (logs ''Y'')] 2 ex_stale) =
       (Ret None, \<lparr>next_func = NilFunc, payload = [''A'', ''X1'', ''A'', ''Y'', ''X2'']\<rparr>)"
proof -
  have 1: "Trigger h (e\<lparr>next_func := c\<rparr>) fs = Trigger h (e\<lparr>next_func := NilFunc\<rparr>) fs"
    by (simp add: Trigger_def setNextFunc_def)
  have 2: "Trigger ex_hookA ex_event ex_first = (Ret (Some ''fail''), ex_hookA, ex_stale)"
  proof -
    have "map Func (handlers ex_hookA) @ ex_first =
       map (\<lambda>p. Some (passes (fst p) (snd p))) [logging ''A'']
         @ Some (stops (\<lambda>log. log @ [''X1'']) (Some ''fail'')) # [Some (logs ''X2'')]"
      by (simp add: ex_hookA_def exA_def ex_first_def logging_def logs_def)
    from Trigger_pass_then_stop[OF refl this, of ex_event] show ?thesis
      by (simp add: ex_event_def ex_stale_def ex_first_def ex_hookA_def exA_def logging_def
            eval_nat_numeral)
  qed
  have 3: "next_func ex_stale \<noteq> NilFunc" by (simp add: ex_stale_def)
  have 4: "Trigger ex_hookA ex_stale [Some (logs ''Y'')] =
       (Ret None, ex_hookA, \<lparr>next_func = NilFunc, payload = [''A'', ''X1'', ''A'', ''Y'']\<rparr>)"
  proof -
    have "map Func (handlers ex_hookA) @ [Some (logs ''Y'')] =
       map (\<lambda>p. Some (passes (fst p) (snd p))) [logging ''A'', logging ''Y'']"
      by (simp add: ex_hookA_def exA_def logging_def logs_def)
    from Trigger_all_pass[OF this, of ex_stale] show ?thesis
      by (simp add: ex_stale_def logging_def)
  qed
  have 5: "Next (build_chain [Some (logs ''A''), Some (logs ''Y'')] 2 ex_stale) =
       (Ret None, \<lparr>next_func = NilFunc, payload = [''A'', ''X1'', ''A'', ''Y'', ''X2'']\<rparr>)"
    by (simp add: build_chain_eq ex_stale_def ex_first_def upt_rec Next.simps setNextFunc_def
          logs_def passes_def)
  show ?thesis by (intro conjI 1 2 3 4 5)
qed

section \<open>The registry: order, replacement and identifiers\<close>

text \<open>
  C6. The handler sequence of every hook a program can hold is sorted by priority,
  non-decreasingly. A \<^verbatim>\<open>Bind\<close> that returns, of a handler with a function, on any hook:
  the sequence after the insertion or replacement (the old sequence with the handler
  appended, or with one slot overwritten) is sorted stably, so the new sequence is
  sorted, is a permutation of it, and the handlers of each priority keep the order they
  have in it. \<^verbatim>\<open>Bind\<close> returns whenever the handler has an id, and otherwise as soon as
  the random source yields a candidate id that no registered handler has.
\<close>

theorem Bind_sorted_stable:
  "(reachable h \<longrightarrow> sorted (map Priority (handlers h)))
   \<and> (Func x \<noteq> None \<and> Bind h (Some x) g = Some (hid, h', g') \<longrightarrow>
        sorted (map Priority (handlers h'))
        \<and> (\<exists>placed. Bind_place h x g = Some (hid, placed, g')
              \<and> (placed = handlers h @ [x\<lparr>Id' := hid\<rparr>]
                   \<or> (\<exists>j<length (handlers h). Id' (handlers h ! j) = Id' x
                          \<and> placed = (handlers h)[j := x]))
              \<and> mset (handlers h') = mset placed
              \<and> (\<forall>k. filter (\<lambda>y. Priority y = k) (handlers h') =
                       filter (\<lambda>y. Priority y = k) placed)))
   \<and> (Func x \<noteq> None \<and> (Id' x \<noteq> '''' \<or> candidate g n \<notin> Id' ` set (handlers h)) \<longrightarrow>
        (\<exists>r. Bind h (Some x) g = Some r))"
proof (intro conjI impI)
  assume "Func x \<noteq> None \<and> (Id' x \<noteq> '''' \<or> candidate g n \<notin> Id' ` set (handlers h))"
  then show "\<exists>r. Bind h (Some x) g = Some r" using Bind_returns[of x g n h] by blast
next
  assume "reachable h"
  from reachable_well_formed[OF this] show "sorted (map Priority (handlers h))"
    by (simp add: well_formed_def)
next
  assume a: "Func x \<noteq> None \<and> Bind h (Some x) g = Some (hid, h', g')"
  then obtain placed where p: "Bind_place h x g = Some (hid, placed, g')"
    and h': "handlers h' = SliceStable placed"
    by (auto simp add: Bind_Some)
  show "sorted (map Priority (handlers h'))" unfolding h' by (rule sorted_SliceStable)
  have shape: "placed = handlers h @ [x\<lparr>Id' := hid\<rparr>]
      \<or> (\<exists>j<length (handlers h). Id' (handlers h ! j) = Id' x \<and> placed = (handlers h)[j := x])"
    using Bind_place_shape[OF p] by auto
  show "\<exists>placed. Bind_place h x g = Some (hid, placed, g')
          \<and> (placed = handlers h @ [x\<lparr>Id' := hid\<rparr>]
               \<or> (\<exists>j<length (handlers h). Id' (handlers h ! j) = Id' x
                      \<and> placed = (handlers h)[j := x]))
          \<and> mset (handlers h') = mset placed
          \<and> (\<forall>k. filter (\<lambda>y. Priority y = k) (handlers h') =
                   filter (\<lambda>y. Priority y = k) placed)"
    using p shape unfolding h'
    by (intro exI[of _ placed]) (simp add: mset_SliceStable stable_SliceStable)
qed

theorem Bind_sorted_stable_witness:
  "reachable ex_hook2 \<and> sorted (map Priority (handlers ex_hook2))
   \<and> Func exH3 \<noteq> None \<and> Bind ex_hook2 (Some exH3) ex_rand = Some (''H3'', ex_hook3, ex_rand)
   \<and> Bind_place ex_hook2 exH3 ex_rand = Some (''H3'', [exH2, exH1, exH3], ex_rand)
   \<and> handlers ex_hook3 = [exH2, exH1, exH3]
   \<and> sorted (map Priority (handlers ex_hook3))
   \<and> filter (\<lambda>y. Priority y = 0) (handlers ex_hook3) = [exH1, exH3]
   \<and> Bind ex_hook1 (Some exH2) ex_rand = Some (''H2'', ex_hook2, ex_rand)
   \<and> Bind_place ex_hook1 exH2 ex_rand = Some (''H2'', [exH1, exH2], ex_rand)
   \<and> handlers ex_hook2 = [exH2, exH1]
   \<and> sorted (map Priority (handlers ex_hook2))
   \<and> Id' exH3 \<noteq> ''''
   \<and> (\<exists>r. Bind ex_hook2 (Some exH3) ex_rand = Some r)"
proof -
  note T2 = Bind_sorted_stable[where h=ex_hook2 and x=exH3 and g=ex_rand and hid="''H3''"
      and h'=ex_hook3 and g'=ex_rand and n=0]
  note T1 = Bind_sorted_stable[where h=ex_hook1 and x=exH2 and g=ex_rand and hid="''H2''"
      and h'=ex_hook2 and g'=ex_rand and n=0]
  have i: "Id' exH3 \<noteq> ''''" by (simp add: exH3_def)
  have f: "Func exH3 \<noteq> None" "Func exH2 \<noteq> None" by (simp_all add: exH3_def exH2_def)
  have p2: "Bind_place ex_hook2 exH3 ex_rand = Some (''H3'', [exH2, exH1, exH3], ex_rand)"
    by (simp add: Bind_place_def ex_hook2_def exH1_def exH2_def exH3_def)
  have p1: "Bind_place ex_hook1 exH2 ex_rand = Some (''H2'', [exH1, exH2], ex_rand)"
    by (simp add: Bind_place_def ex_hook1_def exH1_def exH2_def)
  from T2 reachable_ex_hook(3) have s2: "sorted (map Priority (handlers ex_hook2))" by blast
  from T2 f(1) Bind_ex_hook(3)[of ex_rand]
  have s3: "sorted (map Priority (handlers ex_hook3))" by blast
  from T1 f(2) Bind_ex_hook(2)[of ex_rand]
  have s2': "sorted (map Priority (handlers ex_hook2))" by blast
  have k: "filter (\<lambda>y. Priority y = 0) (handlers ex_hook3) = [exH1, exH3]"
    by (simp add: ex_hook3_def exH1_def exH2_def exH3_def)
  have h3: "handlers ex_hook3 = [exH2, exH1, exH3]" by (simp add: ex_hook3_def)
  have h2: "handlers ex_hook2 = [exH2, exH1]" by (simp add: ex_hook2_def)
  from T2 f(1) i have e: "\<exists>r. Bind ex_hook2 (Some exH3) ex_rand = Some r" by blast
  show ?thesis
    by (intro conjI reachable_ex_hook(3) s2 f(1) Bind_ex_hook(3) p2 h3 s3 k Bind_ex_hook(2) p1 h2 s2'
          i e)
qed

text \<open>
  C7. On a hook a program can hold, binding a handler (with a function) whose id is the
  id of a registered handler overwrites the slot \<open>j\<close> that holds this id and appends
  nothing: the call returns the id, \<^verbatim>\<open>Length\<close> is unchanged, and the new sequence is the
  stable sort by priority of the old one with slot \<open>j\<close> overwritten. When the priority
  is the one of the replaced handler, the new handler is in slot \<open>j\<close>.
\<close>

theorem Bind_same_id_replaces:
  assumes "reachable h" and "Func x \<noteq> None" and "Id' x \<in> Id' ` set (handlers h)"
  shows "\<exists>j h'. j < length (handlers h) \<and> Id' (handlers h ! j) = Id' x
           \<and> Bind h (Some x) g = Some (Id' x, h', g)
           \<and> handlers h' = SliceStable ((handlers h)[j := x])
           \<and> Length h' = Length h
           \<and> (Priority x = Priority (handlers h ! j) \<longrightarrow> handlers h' = (handlers h)[j := x])"
proof -
  from reachable_well_formed[OF assms(1)] have wf: "sorted (map Priority (handlers h))"
    "'''' \<notin> Id' ` set (handlers h)" by (simp_all add: well_formed_def)
  with assms(3) have ne: "Id' x \<noteq> ''''" by auto
  from Bind_place_replace[OF ne assms(3), of g] obtain j where
    j: "j < length (handlers h)" "Id' (handlers h ! j) = Id' x"
       "Bind_place h x g = Some (Id' x, (handlers h)[j := x], g)" by blast
  let ?h' = "h\<lparr>handlers := SliceStable ((handlers h)[j := x])\<rparr>"
  have b: "Bind h (Some x) g = Some (Id' x, ?h', g)"
    using assms(2) j(3) by (simp add: Bind_Some)
  have l: "Length ?h' = Length h" by (simp add: Length_def length_SliceStable)
  have s: "handlers ?h' = (handlers h)[j := x]" if "Priority x = Priority (handlers h ! j)"
  proof -
    have "map Priority ((handlers h)[j := x]) = map Priority (handlers h)"
      using that j(1) by (simp add: map_update list_update_same_conv)
    with wf(1) show ?thesis by (simp add: SliceStable_sorted)
  qed
  show ?thesis
    by (intro exI[of _ j] exI[of _ ?h']) (use j b l s in simp)
qed

theorem Bind_same_id_replaces_witness:
  "reachable ex_hook3 \<and> Func (exH1\<lparr>Func := Some (logs ''H1b'')\<rparr>) \<noteq> None
   \<and> Id' (exH1\<lparr>Func := Some (logs ''H1b'')\<rparr>) \<in> Id' ` set (handlers ex_hook3)
   \<and> Bind ex_hook3 (Some (exH1\<lparr>Func := Some (logs ''H1b'')\<rparr>)) ex_rand =
       Some (''H1'', \<lparr>handlers = [exH2, exH1\<lparr>Func := Some (logs ''H1b'')\<rparr>, exH3]\<rparr>, ex_rand)
   \<and> Length \<lparr>handlers = [exH2, exH1\<lparr>Func := Some (logs ''H1b'')\<rparr>, exH3]\<rparr> = Length ex_hook3
   \<and> (\<exists>j h'. j < length (handlers ex_hook3)
         \<and> Bind ex_hook3 (Some (exH1\<lparr>Func := Some (logs ''H1b'')\<rparr>)) ex_rand = Some (''H1'', h', ex_rand)
         \<and> Length h' = Length ex_hook3)
   \<and> Bind ex_hook3 (Some (exH1\<lparr>Priority := 9\<rparr>)) ex_rand =
       Some (''H1'', \<lparr>handlers = [exH2, exH3, exH1\<lparr>Priority := 9\<rparr>]\<rparr>, ex_rand)"
proof -
  let ?x = "exH1\<lparr>Func := Some (logs ''H1b'')\<rparr>"
  have f: "Func ?x \<noteq> None" by simp
  have i: "Id' ?x \<in> Id' ` set (handlers ex_hook3)" by (simp add: ex_hook3_def)
  have b: "Bind ex_hook3 (Some ?x) ex_rand = Some (''H1'', \<lparr>handlers = [exH2, ?x, exH3]\<rparr>, ex_rand)"
    by (simp add: Bind_def Bind_place_def SliceStable_def ex_hook3_def exH1_def exH2_def exH3_def)
  have l: "Length \<lparr>handlers = [exH2, ?x, exH3]\<rparr> = Length ex_hook3"
    by (simp add: Length_def ex_hook3_def)
  from Bind_same_id_replaces[OF reachable_ex_hook(4) f i, of ex_rand]
  have e: "\<exists>j h'. j < length (handlers ex_hook3)
         \<and> Bind ex_hook3 (Some ?x) ex_rand = Some (''H1'', h', ex_rand) \<and> Length h' = Length ex_hook3"
    by (auto simp add: exH1_def)
  have m: "Bind ex_hook3 (Some (exH1\<lparr>Priority := 9\<rparr>)) ex_rand =
       Some (''H1'', \<lparr>handlers = [exH2, exH3, exH1\<lparr>Priority := 9\<rparr>]\<rparr>, ex_rand)"
    by (simp add: Bind_def Bind_place_def SliceStable_def ex_hook3_def exH1_def exH2_def exH3_def)
  show ?thesis by (intro conjI reachable_ex_hook(4) f i b l e m)
qed

text \<open>
  C8. No two handlers of a hook that a program can hold have the same id. A \<^verbatim>\<open>Bind\<close>
  of a handler with a function and without an id, when it returns, returns an id that
  no handler registered before the call has, and registers the handler under it. The
  call returns as soon as the random source yields a candidate that no registered
  handler has. Two such calls in a row return two different ids.
\<close>

theorem Bind_ids_unique:
  "(reachable h \<longrightarrow> distinct (map Id' (handlers h)))
   \<and> (Func x \<noteq> None \<and> Id' x = '''' \<and> Bind h (Some x) g = Some (hid, h', g') \<longrightarrow>
        hid \<notin> Id' ` set (handlers h) \<and> hid \<in> Id' ` set (handlers h')
        \<and> (distinct (map Id' (handlers h)) \<longrightarrow> distinct (map Id' (handlers h'))))
   \<and> (Func x \<noteq> None \<and> Id' x = '''' \<and> candidate g k \<notin> Id' ` set (handlers h) \<longrightarrow>
        (\<exists>r. Bind h (Some x) g = Some r))
   \<and> (Func x \<noteq> None \<and> Id' x = '''' \<and> Func y \<noteq> None \<and> Id' y = ''''
        \<and> Bind h (Some x) g = Some (hid, h', g') \<and> Bind h' (Some y) g' = Some (hid2, h2, g2) \<longrightarrow>
        hid \<noteq> hid2)"
proof -
  have auto_bind: "hid \<notin> Id' ` set (handlers h) \<and> handlers h' = SliceStable (handlers h @ [x\<lparr>Id' := hid\<rparr>])"
    if "Func x \<noteq> None" "Id' x = ''''" "Bind h (Some x) g = Some (hid, h', g')"
    for h h' :: "'a Hook" and x g hid g'
  proof -
    from that(1,3) obtain placed where p: "Bind_place h x g = Some (hid, placed, g')"
      and h': "handlers h' = SliceStable placed"
      by (auto simp add: Bind_Some)
    from Bind_place_auto[OF that(2) p] h' show ?thesis by simp
  qed
  have 1: "distinct (map Id' (handlers h))" if "reachable h"
    using reachable_well_formed[OF that] by (simp add: well_formed_def)
  have 2: "hid \<notin> Id' ` set (handlers h) \<and> hid \<in> Id' ` set (handlers h')
        \<and> (distinct (map Id' (handlers h)) \<longrightarrow> distinct (map Id' (handlers h')))"
    if "Func x \<noteq> None \<and> Id' x = '''' \<and> Bind h (Some x) g = Some (hid, h', g')"
  proof -
    from that auto_bind[of x h g hid h' g']
    have a: "hid \<notin> Id' ` set (handlers h)" "handlers h' = SliceStable (handlers h @ [x\<lparr>Id' := hid\<rparr>])"
      by simp_all
    have "hid \<in> Id' ` set (handlers h')"
      unfolding a(2) set_SliceStable by (simp add: image_iff)
    moreover have "distinct (map Id' (handlers h'))" if "distinct (map Id' (handlers h))"
      unfolding a(2) distinct_ids_SliceStable using that a(1) by simp
    ultimately show ?thesis using a(1) by simp
  qed
  have 3: "\<exists>r. Bind h (Some x) g = Some r"
    if "Func x \<noteq> None \<and> Id' x = '''' \<and> candidate g k \<notin> Id' ` set (handlers h)"
  proof -
    from that Bind_place_returns[of x g k h] obtain r where "Bind_place h x g = Some r" by blast
    with that show ?thesis by (cases r) (simp add: Bind_Some)
  qed
  have 4: "hid \<noteq> hid2"
    if "Func x \<noteq> None \<and> Id' x = '''' \<and> Func y \<noteq> None \<and> Id' y = ''''
        \<and> Bind h (Some x) g = Some (hid, h', g') \<and> Bind h' (Some y) g' = Some (hid2, h2, g2)"
  proof -
    from that auto_bind[of x h g hid h' g']
    have "handlers h' = SliceStable (handlers h @ [x\<lparr>Id' := hid\<rparr>])" by simp
    then have "hid \<in> Id' ` set (handlers h')" by (simp add: set_SliceStable image_iff)
    moreover from that auto_bind[of y h' g' hid2 h2 g2] have "hid2 \<notin> Id' ` set (handlers h')"
      by simp
    ultimately show ?thesis by auto
  qed
  show ?thesis using 1 2 3 4 by blast
qed

theorem Bind_ids_unique_witness:
  "reachable ex_auto2 \<and> distinct (map Id' (handlers ex_auto2))
   \<and> Func exN \<noteq> None \<and> Id' exN = ''''
   \<and> Bind ex_hook0 (Some exN) ex_rand2 =
       Some (''ABCDEFGHIJKLMNOPQRST'', ex_auto1, ex_rand2\<lparr>position := 20\<rparr>)
   \<and> ''ABCDEFGHIJKLMNOPQRST'' \<notin> Id' ` set (handlers ex_hook0)
   \<and> ''ABCDEFGHIJKLMNOPQRST'' \<in> Id' ` set (handlers ex_auto1)
   \<and> candidate (ex_rand2\<lparr>position := 20\<rparr>) 0 \<in> Id' ` set (handlers ex_auto1)
   \<and> candidate (ex_rand2\<lparr>position := 20\<rparr>) 1 \<notin> Id' ` set (handlers ex_auto1)
   \<and> (\<exists>r. Bind ex_auto1 (Some exN) (ex_rand2\<lparr>position := 20\<rparr>) = Some r)
   \<and> Bind ex_auto1 (Some exN) (ex_rand2\<lparr>position := 20\<rparr>) =
       Some (''opqrstuvwxyz01234567'', ex_auto2, ex_rand2\<lparr>position := 60\<rparr>)
   \<and> ''ABCDEFGHIJKLMNOPQRST'' \<noteq> ''opqrstuvwxyz01234567''"
proof -
  have f: "Func exN \<noteq> None" and i: "Id' exN = ''''" by (simp_all add: exN_def)
  have r1: "reachable ex_auto1" by (rule reachable.bind[OF reachable_ex_hook(1) Bind_ex_auto(1)])
  have r2: "reachable ex_auto2" by (rule reachable.bind[OF r1 Bind_ex_auto(2)])
  note T0 = Bind_ids_unique[of ex_hook0 exN ex_rand2 "''ABCDEFGHIJKLMNOPQRST''" ex_auto1
      "ex_rand2\<lparr>position := 20\<rparr>" 0 exN "''opqrstuvwxyz01234567''" ex_auto2
      "ex_rand2\<lparr>position := 60\<rparr>"]
  note T1 = Bind_ids_unique[of ex_auto1 exN "ex_rand2\<lparr>position := 20\<rparr>" "''opqrstuvwxyz01234567''"
      ex_auto2 "ex_rand2\<lparr>position := 60\<rparr>" 1]
  note T2 = Bind_ids_unique[of ex_auto2]
  from T2 r2 have d: "distinct (map Id' (handlers ex_auto2))" by blast
  from T0 f i Bind_ex_auto(1) have a: "''ABCDEFGHIJKLMNOPQRST'' \<notin> Id' ` set (handlers ex_hook0)"
    "''ABCDEFGHIJKLMNOPQRST'' \<in> Id' ` set (handlers ex_auto1)" by blast+
  have c0: "candidate (ex_rand2\<lparr>position := 20\<rparr>) 0 \<in> Id' ` set (handlers ex_auto1)"
    by (simp add: generateHookId_ex_rand2 ex_auto1_def)
  have c1: "candidate (ex_rand2\<lparr>position := 20\<rparr>) 1 \<notin> Id' ` set (handlers ex_auto1)"
    by (simp add: generateHookId_ex_rand2 ex_auto1_def exN_def)
  from T1 f i c1 have e: "\<exists>r. Bind ex_auto1 (Some exN) (ex_rand2\<lparr>position := 20\<rparr>) = Some r" by blast
  from T0 f i Bind_ex_auto have n: "''ABCDEFGHIJKLMNOPQRST'' \<noteq> ''opqrstuvwxyz01234567''" by blast
  show ?thesis by (intro conjI r2 d f i Bind_ex_auto a c0 c1 e n)
qed

text \<open>
  C9. \<^verbatim>\<open>Bind\<close> of a nil handler, or of a handler whose function is nil, returns the empty
  id and leaves the hook (and the random source) as it was; it is not an error.
  \<^verbatim>\<open>Unbind\<close> of ids that no registered handler has leaves the hook as it was.
\<close>

theorem Bind_Unbind_silent_noop:
  "Bind h None g = Some ('''', h, g)
   \<and> (Func x = None \<longrightarrow> Bind h (Some x) g = Some ('''', h, g))
   \<and> ((\<forall>hid\<in>set idsToRemove. hid \<notin> Id' ` set (handlers h)) \<longrightarrow> Unbind h idsToRemove = h)"
  by (simp add: Bind_noop Unbind_absent)

theorem Bind_Unbind_silent_noop_witness:
  "Bind ex_hook3 None ex_rand = Some ('''', ex_hook3, ex_rand)
   \<and> Func exNoFunc = None
   \<and> Bind ex_hook3 (Some exNoFunc) ex_rand = Some ('''', ex_hook3, ex_rand)
   \<and> ''H4'' \<notin> Id' ` set (handlers ex_hook3) \<and> ''H5'' \<notin> Id' ` set (handlers ex_hook3)
   \<and> Unbind ex_hook3 [''H4'', ''H5''] = ex_hook3
   \<and> Length (Unbind ex_hook3 [''H4'', ''H5'']) = 3"
proof -
  have f: "Func exNoFunc = None" by (simp add: exNoFunc_def)
  have a: "\<forall>hid\<in>set [''H4'', ''H5'']. hid \<notin> Id' ` set (handlers ex_hook3)"
    by (simp add: ex_hook3_def exH1_def exH2_def exH3_def)
  note T = Bind_Unbind_silent_noop[of ex_hook3 ex_rand exNoFunc "[''H4'', ''H5'']"]
  from T have 1: "Bind ex_hook3 None ex_rand = Some ('''', ex_hook3, ex_rand)" by (rule conjunct1)
  from T f have 2: "Bind ex_hook3 (Some exNoFunc) ex_rand = Some ('''', ex_hook3, ex_rand)" by blast
  from T a have 3: "Unbind ex_hook3 [''H4'', ''H5''] = ex_hook3" by blast
  have 4: "Length (Unbind ex_hook3 [''H4'', ''H5'']) = 3"
    unfolding 3 by (simp add: Length_def ex_hook3_def)
  from a have 5: "''H4'' \<notin> Id' ` set (handlers ex_hook3)" "''H5'' \<notin> Id' ` set (handlers ex_hook3)"
    by simp_all
  show ?thesis by (intro conjI 1 f 2 5 3 4)
qed

section \<open>Transports: sending through the hook\<close>

text \<open>
  C10. A transport that has a hook sends by triggering the hook with a new send event
  that carries the message, and with the delivery as the only one-off function. So
  when the functions of the registered handlers all do their work, continue and pass
  the outcome on, the delivery runs once, after the work of all of them, on the message
  that the event then carries; \<^verbatim>\<open>Send\<close> returns what the delivery returned, and the
  handlers see that outcome on the way back.
\<close>

theorem Send_routes_through_Trigger:
  fixes ps :: "((('m, 'x) SendEvent \<Rightarrow> ('m, 'x) SendEvent)
                \<times> (error option \<Rightarrow> ('m, 'x) SendEvent \<Rightarrow> ('m, 'x) SendEvent)) list"
  shows
  "(SMTPClient.onSend c = Some hook \<longrightarrow>
      SMTPClient_Send send c m x =
        (case Trigger hook \<lparr>next_func = NilFunc, payload = \<lparr>Message = m, world = x\<rparr>\<rparr>
                [Some (send_func (send c))] of
           (r, hook', event) \<Rightarrow> (r, world (payload event))))
   \<and> (Sendmail.onSend c' = Some hook \<longrightarrow>
      Sendmail_Send send' c' m x =
        (case Trigger hook \<lparr>next_func = NilFunc, payload = \<lparr>Message = m, world = x\<rparr>\<rparr>
                [Some (send_func (send' c'))] of
           (r, hook', event) \<Rightarrow> (r, world (payload event))))
   \<and> (SMTPClient.onSend c = Some hook
        \<and> map Func (handlers hook) = map (\<lambda>p. Some (passes (fst p) (snd p))) ps
        \<and> send c (Message (fold fst ps \<lparr>Message = m, world = x\<rparr>))
                  (world (fold fst ps \<lparr>Message = m, world = x\<rparr>)) = (err, x') \<longrightarrow>
      SMTPClient_Send send c m x =
        (Ret err, world (foldr (\<lambda>p. snd p err) ps
                           ((fold fst ps \<lparr>Message = m, world = x\<rparr>)\<lparr>world := x'\<rparr>))))
   \<and> (Sendmail.onSend c' = Some hook
        \<and> map Func (handlers hook) = map (\<lambda>p. Some (passes (fst p) (snd p))) ps
        \<and> send' c' (Message (fold fst ps \<lparr>Message = m, world = x\<rparr>))
                    (world (fold fst ps \<lparr>Message = m, world = x\<rparr>)) = (err, x') \<longrightarrow>
      Sendmail_Send send' c' m x =
        (Ret err, world (foldr (\<lambda>p. snd p err) ps
                           ((fold fst ps \<lparr>Message = m, world = x\<rparr>)\<lparr>world := x'\<rparr>))))"
proof (intro conjI impI)
  assume "SMTPClient.onSend c = Some hook"
  then show "SMTPClient_Send send c m x =
        (case Trigger hook \<lparr>next_func = NilFunc, payload = \<lparr>Message = m, world = x\<rparr>\<rparr>
                [Some (send_func (send c))] of
           (r, hook', event) \<Rightarrow> (r, world (payload event)))"
    by (simp add: SMTPClient_Send_def)
next
  assume "Sendmail.onSend c' = Some hook"
  then show "Sendmail_Send send' c' m x =
        (case Trigger hook \<lparr>next_func = NilFunc, payload = \<lparr>Message = m, world = x\<rparr>\<rparr>
                [Some (send_func (send' c'))] of
           (r, hook', event) \<Rightarrow> (r, world (payload event)))"
    by (simp add: Sendmail_Send_def)
next
  let ?e = "\<lparr>next_func = NilFunc, payload = \<lparr>Message = m, world = x\<rparr>\<rparr>"
  assume a: "SMTPClient.onSend c = Some hook
        \<and> map Func (handlers hook) = map (\<lambda>p. Some (passes (fst p) (snd p))) ps
        \<and> send c (Message (fold fst ps \<lparr>Message = m, world = x\<rparr>))
                  (world (fold fst ps \<lparr>Message = m, world = x\<rparr>)) = (err, x')"
  then have 1: "map Func (handlers hook) = map (\<lambda>p. Some (passes (fst p) (snd p))) ps"
    and 2: "send c (Message (fold fst ps (payload ?e))) (world (fold fst ps (payload ?e))) = (err, x')"
    by simp_all
  from a Trigger_pass_then_send[where send="send c" and e="?e", OF 1 2]
  show "SMTPClient_Send send c m x =
        (Ret err, world (foldr (\<lambda>p. snd p err) ps
                           ((fold fst ps \<lparr>Message = m, world = x\<rparr>)\<lparr>world := x'\<rparr>)))"
    by (simp add: SMTPClient_Send_def)
next
  let ?e = "\<lparr>next_func = NilFunc, payload = \<lparr>Message = m, world = x\<rparr>\<rparr>"
  assume a: "Sendmail.onSend c' = Some hook
        \<and> map Func (handlers hook) = map (\<lambda>p. Some (passes (fst p) (snd p))) ps
        \<and> send' c' (Message (fold fst ps \<lparr>Message = m, world = x\<rparr>))
                    (world (fold fst ps \<lparr>Message = m, world = x\<rparr>)) = (err, x')"
  then have 1: "map Func (handlers hook) = map (\<lambda>p. Some (passes (fst p) (snd p))) ps"
    and 2: "send' c' (Message (fold fst ps (payload ?e))) (world (fold fst ps (payload ?e))) = (err, x')"
    by simp_all
  from a Trigger_pass_then_send[where send="send' c'" and e="?e", OF 1 2]
  show "Sendmail_Send send' c' m x =
        (Ret err, world (foldr (\<lambda>p. snd p err) ps
                           ((fold fst ps \<lparr>Message = m, world = x\<rparr>)\<lparr>world := x'\<rparr>)))"
    by (simp add: Sendmail_Send_def)
qed

theorem Send_routes_through_Trigger_witness:
  "SMTPClient.onSend ex_smtp = Some ex_send_hook
   \<and> Sendmail.onSend ex_sendmail = Some ex_send_hook
   \<and> map Func (handlers ex_send_hook) = map (\<lambda>p. Some (passes (fst p) (snd p))) [ex_mark ''h'']
   \<and> ex_send ex_smtp (Message (fold fst [ex_mark ''h''] \<lparr>Message = ''bad'', world = []\<rparr>))
        (world (fold fst [ex_mark ''h''] \<lparr>Message = ''bad'', world = []\<rparr>)) =
       (Some ''rejected'', [''h'', ''sent bad''])
   \<and> ex_send ex_sendmail (Message (fold fst [ex_mark ''h''] \<lparr>Message = ''bad'', world = []\<rparr>))
        (world (fold fst [ex_mark ''h''] \<lparr>Message = ''bad'', world = []\<rparr>)) =
       (Some ''rejected'', [''h'', ''sent bad''])
   \<and> SMTPClient_Send ex_send ex_smtp ''bad'' [] =
       (Ret (Some ''rejected''), [''h'', ''sent bad'', ''h failed''])
   \<and> Sendmail_Send ex_send ex_sendmail ''bad'' [] =
       (Ret (Some ''rejected''), [''h'', ''sent bad'', ''h failed''])
   \<and> SMTPClient_Send ex_send ex_smtp ''bad'' [] =
       (case Trigger ex_send_hook \<lparr>next_func = NilFunc, payload = \<lparr>Message = ''bad'', world = []\<rparr>\<rparr>
               [Some (send_func (ex_send ex_smtp))] of
          (r, hook', event) \<Rightarrow> (r, world (payload event)))
   \<and> Sendmail_Send ex_send ex_sendmail ''bad'' [] =
       (case Trigger ex_send_hook \<lparr>next_func = NilFunc, payload = \<lparr>Message = ''bad'', world = []\<rparr>\<rparr>
               [Some (send_func (ex_send ex_sendmail))] of
          (r, hook', event) \<Rightarrow> (r, world (payload event)))"
proof -
  have o: "SMTPClient.onSend ex_smtp = Some ex_send_hook" by (simp add: ex_smtp_def)
  have o': "Sendmail.onSend ex_sendmail = Some ex_send_hook" by (simp add: ex_sendmail_def)
  have f: "map Func (handlers ex_send_hook) = map (\<lambda>p. Some (passes (fst p) (snd p))) [ex_mark ''h'']"
    by (simp add: ex_send_hook_def)
  have s: "ex_send ex_smtp (Message (fold fst [ex_mark ''h''] \<lparr>Message = ''bad'', world = []\<rparr>))
        (world (fold fst [ex_mark ''h''] \<lparr>Message = ''bad'', world = []\<rparr>)) =
       (Some ''rejected'', [''h'', ''sent bad''])"
    by (simp add: ex_send_def ex_mark_def)
  have s': "ex_send ex_sendmail (Message (fold fst [ex_mark ''h''] \<lparr>Message = ''bad'', world = []\<rparr>))
        (world (fold fst [ex_mark ''h''] \<lparr>Message = ''bad'', world = []\<rparr>)) =
       (Some ''rejected'', [''h'', ''sent bad''])"
    by (simp add: ex_send_def ex_mark_def)
  note T = Send_routes_through_Trigger[where c=ex_smtp and c'=ex_sendmail and hook=ex_send_hook
      and send=ex_send and send'=ex_send and m="''bad''" and x="[]" and ps="[ex_mark ''h'']"
      and err="Some ''rejected''" and x'="[''h'', ''sent bad'']"]
  from T o have 1: "SMTPClient_Send ex_send ex_smtp ''bad'' [] =
       (case Trigger ex_send_hook \<lparr>next_func = NilFunc, payload = \<lparr>Message = ''bad'', world = []\<rparr>\<rparr>
               [Some (send_func (ex_send ex_smtp))] of
          (r, hook', event) \<Rightarrow> (r, world (payload event)))" by blast
  from T o' have 2: "Sendmail_Send ex_send ex_sendmail ''bad'' [] =
       (case Trigger ex_send_hook \<lparr>next_func = NilFunc, payload = \<lparr>Message = ''bad'', world = []\<rparr>\<rparr>
               [Some (send_func (ex_send ex_sendmail))] of
          (r, hook', event) \<Rightarrow> (r, world (payload event)))" by blast
  from T o f s have "SMTPClient_Send ex_send ex_smtp ''bad'' [] =
        (Ret (Some ''rejected''), world (foldr (\<lambda>p. snd p (Some ''rejected'')) [ex_mark ''h'']
           ((fold fst [ex_mark ''h''] \<lparr>Message = ''bad'', world = []\<rparr>)\<lparr>world := [''h'', ''sent bad'']\<rparr>)))"
    by blast
  then have 3: "SMTPClient_Send ex_send ex_smtp ''bad'' [] =
       (Ret (Some ''rejected''), [''h'', ''sent bad'', ''h failed''])"
    by (simp add: ex_mark_def)
  from T o' f s' have "Sendmail_Send ex_send ex_sendmail ''bad'' [] =
        (Ret (Some ''rejected''), world (foldr (\<lambda>p. snd p (Some ''rejected'')) [ex_mark ''h'']
           ((fold fst [ex_mark ''h''] \<lparr>Message = ''bad'', world = []\<rparr>)\<lparr>world := [''h'', ''sent bad'']\<rparr>)))"
    by blast
  then have 4: "Sendmail_Send ex_send ex_sendmail ''bad'' [] =
       (Ret (Some ''rejected''), [''h'', ''sent bad'', ''h failed''])"
    by (simp add: ex_mark_def)
  show ?thesis by (intro conjI o o' f s s' 3 4 1 2)
qed

end
